theory Spec2Isabelle
  imports Complex_Main "HOL-Library.Word"
begin

unbundle bit_operations_syntax

section \<open>Bytes, Python exceptions and library primitives\<close>

text \<open>
  The log is a Python \<open>bytes\<close> object: a list of bytes. Python integers are unbounded;
  every integer the reader builds from bytes is non-negative and is a \<open>nat\<close>, the signed
  64-bit payload of \<open>getInteger\<close> is an \<open>int\<close>. A Python \<open>str\<close> is the list of its
  Unicode code points.
\<close>

type_synonym byte = "8 word"
type_synonym str = "nat list"

datatype exn =
  TypeError | UnicodeDecodeError | IndexError | ValueError | OverflowError | OSError
  | ZeroDivisionError

text \<open>\<open>s[i]\<close> for a non-negative index: IndexError out of range.\<close>

definition getitem :: "byte list \<Rightarrow> nat \<Rightarrow> exn + nat" where
  "getitem buf i = (if i < length buf then Inr (unat (buf ! i)) else Inl IndexError)"

text \<open>\<open>s[a:b]\<close> for non-negative bounds: clipped to the sequence, never an error.\<close>

definition slice :: "'a list \<Rightarrow> nat \<Rightarrow> nat \<Rightarrow> 'a list" where
  "slice xs a b = take (b - a) (drop a xs)"

text \<open>\<open>int.from_bytes(bs, byteorder="little", signed=False)\<close>.\<close>

fun from_bytes_le :: "byte list \<Rightarrow> nat" where
  "from_bytes_le [] = 0"
| "from_bytes_le (b # bs) = unat b + 256 * from_bytes_le bs"

text \<open>\<open>int.from_bytes(bs, byteorder="little", signed=True)\<close>.\<close>

definition from_bytes_le_signed :: "byte list \<Rightarrow> int" where
  "from_bytes_le_signed bs =
     (let n = int (from_bytes_le bs); w = 8 * length bs
      in if w \<noteq> 0 \<and> 2 ^ (w - 1) \<le> n then n - 2 ^ w else n)"

text \<open>A string literal of the source as a \<open>str\<close>.\<close>

definition lit :: "string \<Rightarrow> str" where
  "lit s = map of_char s"

subsection \<open>Floats\<close>

text \<open>
  A Python float is an IEEE-754 binary64 number, kept as its bit pattern (sign bit 63,
  biased exponent in bits 52..62, fraction in bits 0..51).

  \<open>a / b\<close> on non-negative Python integers is the correctly rounded quotient (round to
  nearest, ties to even): ZeroDivisionError for \<open>b = 0\<close>, OverflowError when the rounded
  quotient exceeds the largest float. \<open>floor_log2 a b\<close> is the exponent \<open>e\<close> with
  \<open>2^e \<le> a / b < 2^(e+1)\<close>, \<open>scaled a b k\<close> the fraction \<open>a / (b * 2^k)\<close> and
  \<open>rne_div n d\<close> the integer nearest to \<open>n / d\<close>. The significand is the quotient
  scaled to 53 bits (fewer below the normal range) and rounded; adding it to the
  exponent field carries a significand of \<open>2^53\<close> into the exponent.
\<close>

fun bit_length :: "nat \<Rightarrow> nat" where
  "bit_length n = (if n = 0 then 0 else Suc (bit_length (n div 2)))"

declare bit_length.simps [simp del]

definition scaled :: "nat \<Rightarrow> nat \<Rightarrow> int \<Rightarrow> nat \<times> nat" where
  "scaled a b k = (if 0 \<le> k then (a, b * 2 ^ nat k) else (a * 2 ^ nat (- k), b))"

definition rne_div :: "nat \<Rightarrow> nat \<Rightarrow> nat" where
  "rne_div n d =
     (let q = n div d; r = n mod d
      in if 2 * r < d then q else if d < 2 * r then q + 1 else if even q then q else q + 1)"

definition floor_log2 :: "nat \<Rightarrow> nat \<Rightarrow> int" where
  "floor_log2 a b =
     (let d = int (bit_length a) - int (bit_length b)
      in if snd (scaled a b d) \<le> fst (scaled a b d) then d else d - 1)"

definition truediv :: "nat \<Rightarrow> nat \<Rightarrow> exn + 64 word" where
  "truediv a b =
     (if b = 0 then Inl ZeroDivisionError
      else if a = 0 then Inr 0
      else let e = max (floor_log2 a b) (- 1022);
               bits = nat (e + 1022) * 2 ^ 52
                      + rne_div (fst (scaled a b (e - 52))) (snd (scaled a b (e - 52)))
           in if 0x7FF0000000000000 \<le> bits then Inl OverflowError else Inr (of_nat bits))"

text \<open>
  A C \<open>float\<close> (binary32: sign bit 31, exponent in bits 23..30, fraction in bits 0..22)
  read into a Python float: the same number as a binary64; a subnormal becomes a normal
  number, a NaN keeps its payload and becomes quiet.
\<close>

definition float_to_double :: "32 word \<Rightarrow> 64 word" where
  "float_to_double w =
     (let n = unat w; s = n div 2 ^ 31; e = n div 2 ^ 23 mod 2 ^ 8; m = n mod 2 ^ 23;
          k = bit_length m
      in of_nat
           (s * 2 ^ 63
            + (if e = 255 then
                 (if m = 0 then 2047 * 2 ^ 52 else 2047 * 2 ^ 52 + 2 ^ 51 + (m mod 2 ^ 22) * 2 ^ 29)
               else if e = 0 then
                 (if m = 0 then 0 else (k + 873) * 2 ^ 52 + (m - 2 ^ (k - 1)) * 2 ^ (53 - k))
               else (e + 896) * 2 ^ 52 + m * 2 ^ 29)))"

section \<open>data\_log\_reader.py\<close>

definition kControlStart :: nat where "kControlStart = 0"
definition kControlFinish :: nat where "kControlFinish = 1"
definition kControlSetMetadata :: nat where "kControlSetMetadata = 2"

record StartRecordData =
  start_entry :: nat
  start_name :: str
  start_type :: str
  start_metadata :: str

record MetadataRecordData =
  md_entry :: nat
  md_metadata :: str

record DataLogRecord =
  entry :: nat
  timestamp :: nat
  data :: "byte list"

definition isControl :: "DataLogRecord \<Rightarrow> bool" where
  "isControl r = (entry r = 0)"

definition getControlType :: "DataLogRecord \<Rightarrow> exn + nat" where
  "getControlType r = getitem (data r) 0"

text \<open>
  Python's \<open>and\<close> evaluates its right operand only when the left one is true; the tag byte
  is read last.
\<close>

definition isStart :: "DataLogRecord \<Rightarrow> exn + bool" where
  "isStart r =
     (if \<not> (entry r = 0) then Inr False
      else if \<not> (length (data r) \<ge> 17) then Inr False
      else case getControlType r of Inl e \<Rightarrow> Inl e | Inr t \<Rightarrow> Inr (t = kControlStart))"

definition isFinish :: "DataLogRecord \<Rightarrow> exn + bool" where
  "isFinish r =
     (if \<not> (entry r = 0) then Inr False
      else if \<not> (length (data r) = 5) then Inr False
      else case getControlType r of Inl e \<Rightarrow> Inl e | Inr t \<Rightarrow> Inr (t = kControlFinish))"

definition isSetMetadata :: "DataLogRecord \<Rightarrow> exn + bool" where
  "isSetMetadata r =
     (if \<not> (entry r = 0) then Inr False
      else if \<not> (length (data r) \<ge> 9) then Inr False
      else case getControlType r of Inl e \<Rightarrow> Inl e | Inr t \<Rightarrow> Inr (t = kControlSetMetadata))"

subsection \<open>DataLogRecord: payload decoding\<close>

text \<open>
  \<open>str(bs, encoding="utf-8")\<close>: Python's strict UTF-8 decoder. It accepts the shortest
  encoding of every code point up to U+10FFFF except the surrogates, and raises
  UnicodeDecodeError on anything else.
\<close>

definition is_cont :: "nat \<Rightarrow> bool" where
  "is_cont b = (0x80 \<le> b \<and> b \<le> 0xBF)"

fun utf8_points :: "nat list \<Rightarrow> nat list option" where
  "utf8_points [] = Some []"
| "utf8_points (b0 # bs) =
     (if b0 < 0x80 then map_option ((#) b0) (utf8_points bs)
      else if 0xC2 \<le> b0 \<and> b0 \<le> 0xDF then
        (case bs of
           b1 # r \<Rightarrow>
             if is_cont b1
             then map_option ((#) ((b0 - 0xC0) * 64 + (b1 - 0x80))) (utf8_points r)
             else None
         | _ \<Rightarrow> None)
      else if 0xE0 \<le> b0 \<and> b0 \<le> 0xEF then
        (case bs of
           b1 # b2 # r \<Rightarrow>
             if (if b0 = 0xE0 then 0xA0 else 0x80) \<le> b1
                \<and> b1 \<le> (if b0 = 0xED then 0x9F else 0xBF) \<and> is_cont b2
             then map_option ((#) ((b0 - 0xE0) * 4096 + (b1 - 0x80) * 64 + (b2 - 0x80)))
                    (utf8_points r)
             else None
         | _ \<Rightarrow> None)
      else if 0xF0 \<le> b0 \<and> b0 \<le> 0xF4 then
        (case bs of
           b1 # b2 # b3 # r \<Rightarrow>
             if (if b0 = 0xF0 then 0x90 else 0x80) \<le> b1
                \<and> b1 \<le> (if b0 = 0xF4 then 0x8F else 0xBF) \<and> is_cont b2 \<and> is_cont b3
             then map_option
                    ((#) ((b0 - 0xF0) * 262144 + (b1 - 0x80) * 4096 + (b2 - 0x80) * 64
                          + (b3 - 0x80)))
                    (utf8_points r)
             else None
         | _ \<Rightarrow> None)
      else None)"

definition utf8_decode :: "byte list \<Rightarrow> exn + str" where
  "utf8_decode bs =
     (case utf8_points (map unat bs) of None \<Rightarrow> Inl UnicodeDecodeError | Some s \<Rightarrow> Inr s)"

text \<open>
  \<open>struct.Struct("<f")\<close>, \<open>struct.Struct("<d")\<close> and \<open>array.array\<close>: the bytes of a
  float are the little-endian bytes of its bit pattern. \<open>array.array("l")\<close>, \<open>("f")\<close>
  and \<open>("d")\<close> are read with 8, 4 and 8 byte items in little-endian order (the item size
  and byte order of a 64-bit Linux host); the items of an \<open>array("f")\<close> are C floats,
  which become Python floats when they are taken out of the array.
\<close>

definition word_of_bytes :: "byte list \<Rightarrow> 'a::len word" where
  "word_of_bytes bs = of_nat (from_bytes_le bs)"

definition chunks :: "nat \<Rightarrow> 'a list \<Rightarrow> 'a list list" where
  "chunks n xs = map (\<lambda>i. take n (drop (i * n) xs)) [0..<length xs div n]"

definition readInnerString :: "DataLogRecord \<Rightarrow> nat \<Rightarrow> exn + (str \<times> nat)" where
  "readInnerString r pos =
     (let size' = from_bytes_le (slice (data r) pos (pos + 4));
          end' = pos + 4 + size'
      in if end' > length (data r) then Inl TypeError
         else case utf8_decode (slice (data r) (pos + 4) end') of
                Inl e \<Rightarrow> Inl e
              | Inr s \<Rightarrow> Inr (s, end'))"

definition getStartData :: "DataLogRecord \<Rightarrow> exn + StartRecordData" where
  "getStartData r =
     (case isStart r of
        Inl e \<Rightarrow> Inl e
      | Inr b \<Rightarrow>
          if \<not> b then Inl TypeError
          else let entry' = from_bytes_le (slice (data r) 1 5)
               in case readInnerString r 5 of
                    Inl e \<Rightarrow> Inl e
                  | Inr (name, pos) \<Rightarrow>
                      (case readInnerString r pos of
                         Inl e \<Rightarrow> Inl e
                       | Inr (type, pos') \<Rightarrow>
                           (case readInnerString r pos' of
                              Inl e \<Rightarrow> Inl e
                            | Inr (metadata, _) \<Rightarrow>
                                Inr \<lparr>start_entry = entry', start_name = name,
                                     start_type = type, start_metadata = metadata\<rparr>)))"

definition getFinishEntry :: "DataLogRecord \<Rightarrow> exn + nat" where
  "getFinishEntry r =
     (case isFinish r of
        Inl e \<Rightarrow> Inl e
      | Inr b \<Rightarrow> if \<not> b then Inl TypeError else Inr (from_bytes_le (slice (data r) 1 5)))"

definition getSetMetadataData :: "DataLogRecord \<Rightarrow> exn + MetadataRecordData" where
  "getSetMetadataData r =
     (case isSetMetadata r of
        Inl e \<Rightarrow> Inl e
      | Inr b \<Rightarrow>
          if \<not> b then Inl TypeError
          else let entry' = from_bytes_le (slice (data r) 1 5)
               in case readInnerString r 5 of
                    Inl e \<Rightarrow> Inl e
                  | Inr (metadata, _) \<Rightarrow> Inr \<lparr>md_entry = entry', md_metadata = metadata\<rparr>)"

definition getBoolean :: "DataLogRecord \<Rightarrow> exn + bool" where
  "getBoolean r =
     (if length (data r) \<noteq> 1 then Inl TypeError
      else case getitem (data r) 0 of Inl e \<Rightarrow> Inl e | Inr b \<Rightarrow> Inr (b \<noteq> 0))"

definition getInteger :: "DataLogRecord \<Rightarrow> exn + int" where
  "getInteger r =
     (if length (data r) \<noteq> 8 then Inl TypeError else Inr (from_bytes_le_signed (data r)))"

definition getFloat :: "DataLogRecord \<Rightarrow> exn + 64 word" where
  "getFloat r =
     (if length (data r) \<noteq> 4 then Inl TypeError
      else Inr (float_to_double (word_of_bytes (data r))))"

definition getDouble :: "DataLogRecord \<Rightarrow> exn + 64 word" where
  "getDouble r = (if length (data r) \<noteq> 8 then Inl TypeError else Inr (word_of_bytes (data r)))"

definition getString :: "DataLogRecord \<Rightarrow> exn + str" where
  "getString r = utf8_decode (data r)"

definition getBooleanArray :: "DataLogRecord \<Rightarrow> bool list" where
  "getBooleanArray r = map (\<lambda>x. x \<noteq> 0) (data r)"

definition getIntegerArray :: "DataLogRecord \<Rightarrow> exn + int list" where
  "getIntegerArray r =
     (if length (data r) mod 8 \<noteq> 0 then Inl TypeError
      else Inr (map from_bytes_le_signed (chunks 8 (data r))))"

definition getFloatArray :: "DataLogRecord \<Rightarrow> exn + 32 word list" where
  "getFloatArray r =
     (if length (data r) mod 4 \<noteq> 0 then Inl TypeError
      else Inr (map word_of_bytes (chunks 4 (data r))))"

definition getDoubleArray :: "DataLogRecord \<Rightarrow> exn + 64 word list" where
  "getDoubleArray r =
     (if length (data r) mod 8 \<noteq> 0 then Inl TypeError
      else Inr (map word_of_bytes (chunks 8 (data r))))"

text \<open>
  \<open>getStringArray\<close>. The bound \<open>size > (len(self.data) - 4) / 4\<close> is Python's true
  division; the quotient by 4 is exact in floating point and Python compares an integer
  with a float exactly, so the comparison is the one of the rationals. The loop over
  \<open>range(size)\<close> carries the cursor and the list built so far.
\<close>

fun readStrings :: "DataLogRecord \<Rightarrow> nat \<Rightarrow> nat \<Rightarrow> str list \<Rightarrow> exn + str list" where
  "readStrings r 0 pos arr = Inr arr"
| "readStrings r (Suc n) pos arr =
     (case readInnerString r pos of
        Inl e \<Rightarrow> Inl e
      | Inr (val, pos') \<Rightarrow> readStrings r n pos' (arr @ [val]))"

definition getStringArray :: "DataLogRecord \<Rightarrow> exn + str list" where
  "getStringArray r =
     (let size' = from_bytes_le (slice (data r) 0 4)
      in if real size' > (real_of_int (int (length (data r)) - 4)) / 4 then Inl TypeError
         else readStrings r size' 4 [])"

subsection \<open>DataLogIterator: framing\<close>

text \<open>
  \<open>_readVarInt\<close>: the loop over \<open>range(len)\<close>, each byte read with a checked index and
  or-ed into the value at its position.
\<close>

fun readVarInt_loop :: "byte list \<Rightarrow> nat \<Rightarrow> nat list \<Rightarrow> nat \<Rightarrow> exn + nat" where
  "readVarInt_loop buf pos [] val = Inr val"
| "readVarInt_loop buf pos (i # is) val =
     (case getitem buf (pos + i) of
        Inl e \<Rightarrow> Inl e
      | Inr b \<Rightarrow> readVarInt_loop buf pos is (val OR push_bit (i * 8) b))"

definition readVarInt :: "byte list \<Rightarrow> nat \<Rightarrow> nat \<Rightarrow> exn + nat" where
  "readVarInt buf pos len = readVarInt_loop buf pos [0..<len] 0"

text \<open>
  \<open>__next__\<close> on the iterator state \<open>(buf, pos)\<close>: \<open>Inr None\<close> is StopIteration (the end
  of the iteration), \<open>Inr (Some (record, pos'))\<close> the record returned and the new cursor,
  \<open>Inl e\<close> any other exception.
\<close>

definition "next" :: "byte list \<Rightarrow> nat \<Rightarrow> exn + (DataLogRecord \<times> nat) option" where
  "next buf pos =
     (if length buf < pos + 4 then Inr None
      else case getitem buf pos of
        Inl e \<Rightarrow> Inl e
      | Inr b0 \<Rightarrow>
          let entryLen = (b0 AND 0x3) + 1;
              sizeLen = (drop_bit 2 b0 AND 0x3) + 1;
              timestampLen = (drop_bit 4 b0 AND 0x7) + 1;
              headerLen = 1 + entryLen + sizeLen + timestampLen
          in if length buf < pos + headerLen then Inr None
             else case readVarInt buf (pos + 1) entryLen of
               Inl e \<Rightarrow> Inl e
             | Inr entry' \<Rightarrow>
                 (case readVarInt buf (pos + 1 + entryLen) sizeLen of
                    Inl e \<Rightarrow> Inl e
                  | Inr size' \<Rightarrow>
                      (case readVarInt buf (pos + 1 + entryLen + sizeLen) timestampLen of
                         Inl e \<Rightarrow> Inl e
                       | Inr timestamp' \<Rightarrow>
                           if length buf < pos + headerLen + size' then Inr None
                           else Inr (Some
                             (\<lparr>entry = entry', timestamp = timestamp',
                               data = slice buf (pos + headerLen) (pos + headerLen + size')\<rparr>,
                              pos + headerLen + size')))))"

text \<open>
  Consuming the iterator to its end, as a \<open>for\<close> loop or \<open>list(...)\<close> does: the records
  returned until \<open>__next__\<close> raises StopIteration.
\<close>

function records :: "byte list \<Rightarrow> nat \<Rightarrow> exn + DataLogRecord list" where
  "records buf pos =
     (case next buf pos of
        Inl e \<Rightarrow> Inl e
      | Inr None \<Rightarrow> Inr []
      | Inr (Some (r, pos')) \<Rightarrow>
          (case records buf pos' of Inl e \<Rightarrow> Inl e | Inr rs \<Rightarrow> Inr (r # rs)))"
  by pat_completeness auto
termination
  by (relation "measure (\<lambda>(buf, pos). length buf - pos)")
    (auto simp: next_def Let_def split: if_splits sum.splits)

declare records.simps [simp del]

subsection \<open>DataLogReader: the global header\<close>

definition magic :: "byte list" where
  "magic = [0x57, 0x50, 0x49, 0x4C, 0x4F, 0x47]"

definition getVersion :: "byte list \<Rightarrow> nat" where
  "getVersion buf = (if length buf < 12 then 0 else from_bytes_le (slice buf 6 8))"

definition isValid :: "byte list \<Rightarrow> bool" where
  "isValid buf = (length buf \<ge> 12 \<and> slice buf 0 6 = magic \<and> getVersion buf \<ge> 0x0100)"

text \<open>\<open>DataLogReader.__iter__\<close>: the cursor of the first record.\<close>

definition iter_start :: "byte list \<Rightarrow> nat" where
  "iter_start buf = 12 + from_bytes_le (slice buf 8 12)"

section \<open>log\_helpers.py\<close>

text \<open>
  The values a row can hold: \<open>None\<close>, a bool, an int, a float (its binary64 bit
  pattern), a str and a list of values.
\<close>

datatype pyvalue =
    VNone
  | VBool bool
  | VInt int
  | VDouble "64 word"
  | VStr str
  | VList "pyvalue list"

text \<open>
  A row \<open>[timestamp, entry.name, value]\<close>; the timestamp is the float
  \<open>record.timestamp / 1000000\<close>.
\<close>

type_synonym row = "64 word \<times> str \<times> pyvalue"

text \<open>
  The rendering of a \<open>systemTime\<close> entry,
  \<open>"{:%Y-%m-%d %H:%M:%S.%f}".format(datetime.fromtimestamp(x / 1000000))\<close>, depends on the
  host's time zone and raises outside the range of \<open>datetime\<close>: it is the parameter
  \<open>fmt\<close> of the functions below, from the integer \<open>x\<close> to the string or the exception.
\<close>

type_synonym time_format = "int \<Rightarrow> exn + str"

definition raise_or :: "exn + 'a \<Rightarrow> ('a \<Rightarrow> 'b) \<Rightarrow> exn + 'b" where
  "raise_or m f = (case m of Inl e \<Rightarrow> Inl e | Inr x \<Rightarrow> Inr (f x))"

definition extract_value_from_entry ::
    "time_format \<Rightarrow> StartRecordData \<Rightarrow> DataLogRecord \<Rightarrow> exn + row" where
  "extract_value_from_entry fmt e r =
     (case truediv (timestamp r) 1000000 of
        Inl x \<Rightarrow> Inl x
      | Inr timestamp' \<Rightarrow>
          (let t = start_type e
           in raise_or
                (if start_name e = lit ''systemTime'' \<and> t = lit ''int64'' then
                   (case getInteger r of Inl x \<Rightarrow> Inl x | Inr i \<Rightarrow> raise_or (fmt i) VStr)
                 else if t = lit ''double'' then raise_or (getDouble r) VDouble
                 else if t = lit ''int64'' then raise_or (getInteger r) VInt
                 else if t = lit ''string'' \<or> t = lit ''json'' then raise_or (getString r) VStr
                 else if t = lit ''boolean'' then raise_or (getBoolean r) VBool
                 else if t = lit ''boolean[]'' then Inr (VList (map VBool (getBooleanArray r)))
                 else if t = lit ''double[]'' then
                   raise_or (getDoubleArray r) (\<lambda>xs. VList (map VDouble xs))
                 else if t = lit ''float[]'' then
                   raise_or (getFloatArray r)
                     (\<lambda>xs. VList (map (\<lambda>x. VDouble (float_to_double x)) xs))
                 else if t = lit ''int64[]'' then
                   raise_or (getIntegerArray r) (\<lambda>xs. VList (map VInt xs))
                 else if t = lit ''string[]'' then
                   raise_or (getStringArray r) (\<lambda>xs. VList (map VStr xs))
                 else Inr VNone)
                (\<lambda>v. (timestamp', start_name e, v))))"

definition error_message :: string where
  "error_message =
     ''Invalid file, verify that the file is a wpilog or try downloading the log file again.''"

text \<open>The local variables of \<open>convert_data_log_to_list\<close> that the loop updates.\<close>

record conv_state =
  entries :: "nat \<rightharpoonup> StartRecordData"
  "output" :: "row list"
  error :: "string option"

text \<open>
  \<open>try: ... except TypeError: error = error_message\<close>: a TypeError sets the error flag,
  any other exception leaves the function.
\<close>

definition except_TypeError ::
    "conv_state \<Rightarrow> exn + 'a \<Rightarrow> ('a \<Rightarrow> conv_state) \<Rightarrow> exn + conv_state" where
  "except_TypeError st m f =
     (case m of
        Inr x \<Rightarrow> Inr (f x)
      | Inl e \<Rightarrow> if e = TypeError then Inr (st\<lparr>error := Some error_message\<rparr>) else Inl e)"

text \<open>The body of the \<open>for record in reader\<close> loop.\<close>

definition loop_body :: "time_format \<Rightarrow> conv_state \<Rightarrow> DataLogRecord \<Rightarrow> exn + conv_state" where
  "loop_body fmt st r =
     (case isStart r of
        Inl e \<Rightarrow> Inl e
      | Inr is_start \<Rightarrow>
          if is_start then
            except_TypeError st (getStartData r)
              (\<lambda>d. st\<lparr>entries := (entries st)(start_entry d \<mapsto> d)\<rparr>)
          else case isFinish r of
            Inl e \<Rightarrow> Inl e
          | Inr is_finish \<Rightarrow>
              if is_finish then
                except_TypeError st (getFinishEntry r)
                  (\<lambda>k. if k \<in> dom (entries st)
                       then st\<lparr>entries := (entries st)(k := None)\<rparr> else st)
              else case isSetMetadata r of
                Inl e \<Rightarrow> Inl e
              | Inr is_set_metadata \<Rightarrow>
                  if is_set_metadata then
                    except_TypeError st (getSetMetadataData r) (\<lambda>d. st)
                  else if isControl r then Inr (st\<lparr>error := Some error_message\<rparr>)
                  else case entries st (entry r) of
                    None \<Rightarrow> Inr st
                  | Some e \<Rightarrow>
                      raise_or (extract_value_from_entry fmt e r)
                        (\<lambda>row. st\<lparr>output := output st @ [row]\<rparr>))"

function convert_loop ::
    "time_format \<Rightarrow> byte list \<Rightarrow> nat \<Rightarrow> conv_state \<Rightarrow> exn + conv_state" where
  "convert_loop fmt buf pos st =
     (case next buf pos of
        Inl e \<Rightarrow> Inl e
      | Inr None \<Rightarrow> Inr st
      | Inr (Some (r, pos')) \<Rightarrow>
          (case loop_body fmt st r of
             Inl e \<Rightarrow> Inl e
           | Inr st' \<Rightarrow> convert_loop fmt buf pos' st'))"
  by pat_completeness auto
termination
  by (relation "measure (\<lambda>(fmt, buf, pos, st). length buf - pos)")
    (auto simp: next_def Let_def split: if_splits sum.splits)

declare convert_loop.simps [simp del]

definition convert_data_log_to_list ::
    "time_format \<Rightarrow> byte list \<Rightarrow> exn + (row list \<times> string option)" where
  "convert_data_log_to_list fmt input_file_bytes =
     raise_or
       (convert_loop fmt input_file_bytes (iter_start input_file_bytes)
          \<lparr>entries = Map.empty, output = [], error = None\<rparr>)
       (\<lambda>st. (output st, error st))"

text \<open>The loop body run over a list of records, stopping at the first exception.\<close>

fun run_records :: "time_format \<Rightarrow> conv_state \<Rightarrow> DataLogRecord list \<Rightarrow> exn + conv_state" where
  "run_records fmt st [] = Inr st"
| "run_records fmt st (r # rs) =
     (case loop_body fmt st r of Inl e \<Rightarrow> Inl e | Inr st' \<Rightarrow> run_records fmt st' rs)"

section \<open>The frame at a cursor\<close>

text \<open>
  The quantities the record header at \<open>pos\<close> declares, read directly from the buffer:
  the three field widths of the descriptor byte, the header length, and the three
  little-endian fields. \<open>framed\<close> says that a whole record lies in the buffer at \<open>pos\<close>.
\<close>

definition entryLen_at :: "byte list \<Rightarrow> nat \<Rightarrow> nat" where
  "entryLen_at buf pos = (unat (buf ! pos) AND 0x3) + 1"

definition sizeLen_at :: "byte list \<Rightarrow> nat \<Rightarrow> nat" where
  "sizeLen_at buf pos = (drop_bit 2 (unat (buf ! pos)) AND 0x3) + 1"

definition timestampLen_at :: "byte list \<Rightarrow> nat \<Rightarrow> nat" where
  "timestampLen_at buf pos = (drop_bit 4 (unat (buf ! pos)) AND 0x7) + 1"

definition headerLen_at :: "byte list \<Rightarrow> nat \<Rightarrow> nat" where
  "headerLen_at buf pos = 1 + entryLen_at buf pos + sizeLen_at buf pos + timestampLen_at buf pos"

definition entry_at :: "byte list \<Rightarrow> nat \<Rightarrow> nat" where
  "entry_at buf pos = from_bytes_le (slice buf (pos + 1) (pos + 1 + entryLen_at buf pos))"

definition payloadSize_at :: "byte list \<Rightarrow> nat \<Rightarrow> nat" where
  "payloadSize_at buf pos =
     from_bytes_le (slice buf (pos + 1 + entryLen_at buf pos)
       (pos + 1 + entryLen_at buf pos + sizeLen_at buf pos))"

definition timestamp_at :: "byte list \<Rightarrow> nat \<Rightarrow> nat" where
  "timestamp_at buf pos =
     from_bytes_le (slice buf (pos + 1 + entryLen_at buf pos + sizeLen_at buf pos)
       (pos + headerLen_at buf pos))"

definition record_at :: "byte list \<Rightarrow> nat \<Rightarrow> DataLogRecord" where
  "record_at buf pos =
     \<lparr>entry = entry_at buf pos, timestamp = timestamp_at buf pos,
      data = slice buf (pos + headerLen_at buf pos)
               (pos + headerLen_at buf pos + payloadSize_at buf pos)\<rparr>"

definition framed :: "byte list \<Rightarrow> nat \<Rightarrow> bool" where
  "framed buf pos =
     (pos + 4 \<le> length buf \<and> pos + headerLen_at buf pos \<le> length buf
      \<and> pos + headerLen_at buf pos + payloadSize_at buf pos \<le> length buf)"

section \<open>The wire format, written out\<close>

text \<open>
  The repository only reads logs. The encoder below writes one record the way the format
  lays it out: the descriptor byte with \<open>e - 1\<close> in bits 0..1, \<open>s - 1\<close> in bits 2..3 and
  \<open>t - 1\<close> in bits 4..6, then the entry id on \<open>e\<close> bytes, the payload size on \<open>s\<close>
  bytes and the timestamp on \<open>t\<close> bytes, all little-endian, then the payload.
  \<open>widths_fit\<close> says that the widths are in range and large enough for the three values.
\<close>

fun le_bytes :: "nat \<Rightarrow> nat \<Rightarrow> byte list" where
  "le_bytes 0 v = []"
| "le_bytes (Suc n) v = of_nat (v mod 256) # le_bytes n (v div 256)"

definition descriptor_byte :: "nat \<Rightarrow> nat \<Rightarrow> nat \<Rightarrow> byte" where
  "descriptor_byte e s t = of_nat ((e - 1) OR push_bit 2 (s - 1) OR push_bit 4 (t - 1))"

definition encode_record :: "nat \<Rightarrow> nat \<Rightarrow> nat \<Rightarrow> nat \<Rightarrow> nat \<Rightarrow> byte list \<Rightarrow> byte list" where
  "encode_record e s t streamId ts payload =
     descriptor_byte e s t # le_bytes e streamId @ le_bytes s (length payload) @ le_bytes t ts
       @ payload"

definition widths_fit :: "nat \<Rightarrow> nat \<Rightarrow> nat \<Rightarrow> nat \<Rightarrow> nat \<Rightarrow> byte list \<Rightarrow> bool" where
  "widths_fit e s t streamId ts payload =
     (1 \<le> e \<and> e \<le> 4 \<and> 1 \<le> s \<and> s \<le> 4 \<and> 1 \<le> t \<and> t \<le> 8
      \<and> streamId < 256 ^ e \<and> length payload < 256 ^ s \<and> ts < 256 ^ t)"

text \<open>
  A frame is a record together with the three header field widths it is written with.
\<close>

type_synonym frame = "(nat \<times> nat \<times> nat) \<times> DataLogRecord"

fun encode_frame :: "frame \<Rightarrow> byte list" where
  "encode_frame ((e, s, t), r) = encode_record e s t (entry r) (timestamp r) (data r)"

fun frame_fits :: "frame \<Rightarrow> bool" where
  "frame_fits ((e, s, t), r) = widths_fit e s t (entry r) (timestamp r) (data r)"

text \<open>
  The wire form of a length-prefixed string: a 4-byte little-endian length, then the bytes.
\<close>

definition lp_string :: "byte list \<Rightarrow> byte list" where
  "lp_string bs = le_bytes 4 (length bs) @ bs"

text \<open>
  A record declares the entry \<open>X\<close> when it is a start record that decodes to a
  StartRecordData of entry \<open>X\<close>.
\<close>

definition declares :: "nat \<Rightarrow> DataLogRecord \<Rightarrow> bool" where
  "declares X r = (case getStartData r of Inl e \<Rightarrow> False | Inr d \<Rightarrow> start_entry d = X)"

section \<open>Values and sample logs\<close>

text \<open>
  The real number a binary64 bit pattern denotes (\<open>None\<close> for the infinities and NaN):
  \<open>(-1)^sign * 1.fraction * 2^(exponent - 1023)\<close> for a normal number and
  \<open>(-1)^sign * 0.fraction * 2^(-1022)\<close> for a subnormal one.
\<close>

definition double_value :: "64 word \<Rightarrow> real option" where
  "double_value w =
     (let n = unat w;
          sign = (if n div 2 ^ 63 = 1 then - 1 else 1);
          e = n div 2 ^ 52 mod 2 ^ 11;
          m = n mod 2 ^ 52
      in if e = 2047 then None
         else if e = 0 then Some (sign * real m * 2 powi (- 1074))
         else Some (sign * real (2 ^ 52 + m) * 2 powi (int e - 1075)))"

text \<open>
  Two sample logs. Both start with the 12-byte header (WPILOG, version 1.0, no extra
  header) and a start record declaring entry 7, named \<open>x\<close>, of type \<open>double\<close>.
  \<open>sample_log\<close> continues with one data record of entry 7 at 2000000 microseconds
  holding the double 3.25. \<open>mismatch_log\<close> continues with a data record of entry 7 whose
  payload has 3 bytes, and then the well-formed data record.
\<close>

definition log_header :: "byte list" where
  "log_header = [0x57, 0x50, 0x49, 0x4C, 0x4F, 0x47, 0x00, 0x01, 0, 0, 0, 0]"

definition start_bytes :: "byte list" where
  "start_bytes =
     [0x00, 0, 24, 1,
      0, 7, 0, 0, 0, 1, 0, 0, 0, 0x78, 6, 0, 0, 0, 0x64, 0x6F, 0x75, 0x62, 0x6C, 0x65,
      0, 0, 0, 0]"

definition double_bytes :: "byte list" where
  "double_bytes = [0x20, 7, 8, 0x80, 0x84, 0x1E, 0, 0, 0, 0, 0, 0, 0x0A, 0x40]"

definition short_bytes :: "byte list" where
  "short_bytes = [0x00, 7, 3, 5, 1, 2, 3]"

definition sample_log :: "byte list" where
  "sample_log = log_header @ start_bytes @ double_bytes"

definition mismatch_log :: "byte list" where
  "mismatch_log = log_header @ start_bytes @ short_bytes @ double_bytes"

definition start_record :: DataLogRecord where
  "start_record =
     \<lparr>entry = 0, timestamp = 1,
      data = [0, 7, 0, 0, 0, 1, 0, 0, 0, 0x78, 6, 0, 0, 0, 0x64, 0x6F, 0x75, 0x62, 0x6C, 0x65,
              0, 0, 0, 0]\<rparr>"

definition double_record :: DataLogRecord where
  "double_record =
     \<lparr>entry = 7, timestamp = 2000000, data = [0, 0, 0, 0, 0, 0, 0x0A, 0x40]\<rparr>"

definition short_record :: DataLogRecord where
  "short_record = \<lparr>entry = 7, timestamp = 5, data = [1, 2, 3]\<rparr>"

definition entry7 :: StartRecordData where
  "entry7 = \<lparr>start_entry = 7, start_name = lit ''x'', start_type = lit ''double'',
             start_metadata = []\<rparr>"

definition initial_state :: conv_state where
  "initial_state = \<lparr>entries = Map.empty, output = [], error = None\<rparr>"

section \<open>Verified properties\<close>

subsection \<open>Reading little-endian fields\<close>

lemma or_push: "val < 2 ^ n \<Longrightarrow> (val::nat) OR push_bit n b = val + 2 ^ n * b"
proof -
  assume a: "val < 2 ^ n"
  have "val + push_bit n b = val OR push_bit n b"
  proof (rule disjunctive_add)
    fix k
    show "\<not> bit val k \<or> \<not> bit (push_bit n b) k"
    proof (cases "k < n")
      case True then show ?thesis by (simp add: bit_push_bit_iff)
    next
      case False
      then have "val < 2 ^ k" using a
        by (meson leI less_le_trans one_le_numeral power_increasing)
      then have "\<not> bit val k" by (simp add: bit_iff_odd)
      then show ?thesis by simp
    qed
  qed
  then show ?thesis by (simp add: push_bit_eq_mult mult.commute)
qed

lemma rvl:
  "pos + k + m \<le> length buf \<Longrightarrow> val < 2 ^ (8 * k) \<Longrightarrow>
   readVarInt_loop buf pos [k..<k+m] val
     = Inr (val + 2 ^ (8 * k) * from_bytes_le (take m (drop (pos + k) buf)))"
proof (induction m arbitrary: k val)
  case 0 then show ?case by simp
next
  case (Suc m)
  let ?b = "unat (buf ! (pos + k))"
  have lt: "pos + k < length buf" using Suc.prems by simp
  have up: "[k..<k + Suc m] = k # [Suc k..<Suc k + m]" by (simp add: upt_rec)
  have dr: "take (Suc m) (drop (pos + k) buf) = buf ! (pos + k) # take m (drop (pos + Suc k) buf)"
    using lt by (metis Cons_nth_drop_Suc add_Suc_right take_Suc_Cons)
  have b: "?b < 256" using unsigned_less[of "buf ! (pos + k)", where ?'a = nat] by simp
  have v: "val + 2 ^ (8 * k) * ?b < 2 ^ (8 * Suc k)"
  proof -
    have "val + 2 ^ (8 * k) * ?b < 2 ^ (8 * k) + 2 ^ (8 * k) * ?b" using Suc.prems by simp
    also have "\<dots> = 2 ^ (8 * k) * (1 + ?b)" by simp
    also have "\<dots> \<le> 2 ^ (8 * k) * 256" using b by (intro mult_le_mono2) simp
    also have "\<dots> = 2 ^ (8 * Suc k)" by (simp add: power_add)
    finally show ?thesis .
  qed
  have "readVarInt_loop buf pos [k..<k + Suc m] val
      = readVarInt_loop buf pos [Suc k..<Suc k + m] (val + 2 ^ (8 * k) * ?b)"
    using lt Suc.prems(2) by (simp only: up) (simp add: getitem_def or_push mult.commute)
  also have "\<dots> = Inr (val + 2 ^ (8 * k) * ?b + 2 ^ (8 * Suc k) * from_bytes_le (take m (drop (pos + Suc k) buf)))"
    using Suc.prems v by (intro Suc.IH) simp_all
  finally show ?case by (simp only: dr) (simp add: power_add algebra_simps)
qed

lemma readVarInt_ok:
  "pos + len \<le> length buf \<Longrightarrow> readVarInt buf pos len = Inr (from_bytes_le (slice buf pos (pos + len)))"
  using rvl[of pos 0 len buf 0] by (simp add: readVarInt_def slice_def)

lemma headerLen_at_ge: "4 \<le> headerLen_at buf pos"
  by (simp add: headerLen_at_def entryLen_at_def sizeLen_at_def timestampLen_at_def)

lemma next_char:
  "next buf pos =
     (if framed buf pos
      then Inr (Some (record_at buf pos, pos + headerLen_at buf pos + payloadSize_at buf pos))
      else Inr None)"
proof (cases "pos + 4 \<le> length buf \<and> pos + headerLen_at buf pos \<le> length buf")
  case False
  then show ?thesis
    by (auto simp: next_def framed_def getitem_def Let_def headerLen_at_def entryLen_at_def
        sizeLen_at_def timestampLen_at_def)
next
  case True
  let ?e = "entryLen_at buf pos" and ?s = "sizeLen_at buf pos" and ?t = "timestampLen_at buf pos"
  have h: "pos + (1 + ?e + ?s + ?t) \<le> length buf"
    using True by (simp add: headerLen_at_def)
  have r1: "readVarInt buf (pos + 1) ?e = Inr (entry_at buf pos)"
    using h by (simp add: readVarInt_ok entry_at_def)
  have r2: "readVarInt buf (pos + 1 + ?e) ?s = Inr (payloadSize_at buf pos)"
    using h by (simp add: readVarInt_ok payloadSize_at_def)
  have r3: "readVarInt buf (pos + 1 + ?e + ?s) ?t = Inr (timestamp_at buf pos)"
    using h by (simp add: readVarInt_ok timestamp_at_def headerLen_at_def add.assoc)
  show ?thesis
    using True h r1 r2 r3
    by (simp add: next_def getitem_def Let_def framed_def record_at_def headerLen_at_def
        entryLen_at_def sizeLen_at_def timestampLen_at_def)
qed

lemma and3: "(x::nat) AND 3 = x mod 4"
  using take_bit_eq_mask[of 2 x] by (simp add: take_bit_eq_mod mask_eq_exp_minus_1)

lemma and7: "(x::nat) AND 7 = x mod 8"
  using take_bit_eq_mask[of 3 x] by (simp add: take_bit_eq_mod mask_eq_exp_minus_1)

lemma desc_sum:
  assumes "a < 4" "b < 4" "c < 8"
  shows "(a::nat) OR push_bit 2 b OR push_bit 4 c = a + 4 * b + 16 * c"
proof -
  have 1: "a OR push_bit 2 b = a + 2 ^ 2 * b" using assms by (intro or_push) simp
  have "a + 2 ^ 2 * b < 2 ^ 4" using assms by simp
  then have 2: "(a + 2 ^ 2 * b) OR push_bit 4 c = (a + 2 ^ 2 * b) + 2 ^ 4 * c" by (rule or_push)
  have "a OR push_bit 2 b OR push_bit 4 c = (a OR push_bit 2 b) OR push_bit 4 c"
    by (simp add: or.assoc)
  then show ?thesis using 1 2 by simp
qed

lemma slice_6_8:
  assumes "12 \<le> length buf"
  shows "slice buf 6 8 = [buf ! 6, buf ! 7]"
proof -
  have "take 2 (drop 6 buf) = [drop 6 buf ! 0, drop 6 buf ! 1]"
    using assms by (intro nth_equalityI) (auto simp: less_Suc_eq numeral_2_eq_2)
  then show ?thesis using assms by (simp add: slice_def)
qed

subsection \<open>The global header and the classification of control records\<close>

text \<open>
  C4. \<open>isValid\<close> holds exactly when the buffer has at least 12 bytes, its first six bytes
  are the magic tag WPILOG (0x57 0x50 0x49 0x4C 0x4F 0x47) and the little-endian 16-bit
  number at bytes 6 and 7 is at least 0x0100.
\<close>

theorem isValid_iff:
  "isValid buf =
     (12 \<le> length buf \<and> take 6 buf = map of_char ''WPILOG''
      \<and> 0x0100 \<le> unat (buf ! 6) + 256 * unat (buf ! 7))"
proof (cases "12 \<le> length buf")
  case True
  then show ?thesis
    by (simp add: isValid_def getVersion_def slice_6_8 magic_def) (simp add: slice_def)
next
  case False
  then show ?thesis by (simp add: isValid_def)
qed

text \<open>
  C10. The three classification predicates never fail: each returns a boolean, the one
  its length bound and tag comparison describe, and the tag byte is read only after the
  length bound has held. A control record with an empty payload is none of the three.
\<close>

theorem classify_total:
  "isStart r = Inr (entry r = 0 \<and> 17 \<le> length (data r) \<and> unat (hd (data r)) = 0)
   \<and> isFinish r = Inr (entry r = 0 \<and> length (data r) = 5 \<and> unat (hd (data r)) = 1)
   \<and> isSetMetadata r = Inr (entry r = 0 \<and> 9 \<le> length (data r) \<and> unat (hd (data r)) = 2)
   \<and> isStart \<lparr>entry = 0, timestamp = t, data = []\<rparr> = Inr False
   \<and> isFinish \<lparr>entry = 0, timestamp = t, data = []\<rparr> = Inr False
   \<and> isSetMetadata \<lparr>entry = 0, timestamp = t, data = []\<rparr> = Inr False"
  by (cases "data r")
    (simp_all add: isStart_def isFinish_def isSetMetadata_def getControlType_def getitem_def
      kControlStart_def kControlFinish_def kControlSetMetadata_def)

subsection \<open>Framing: round trip, termination, truncation\<close>

lemma length_le_bytes: "length (le_bytes n v) = n"
  by (induction n arbitrary: v) simp_all

lemma from_bytes_le_bytes: "v < 256 ^ n \<Longrightarrow> from_bytes_le (le_bytes n v) = v"
proof (induction n arbitrary: v)
  case 0 then show ?case by simp
next
  case (Suc n)
  have "v div 256 < 256 ^ n" using Suc.prems by (simp add: less_mult_imp_div_less mult.commute)
  then have "from_bytes_le (le_bytes n (v div 256)) = v div 256" by (rule Suc.IH)
  moreover have "unat (of_nat (v mod 256) :: byte) = v mod 256"
    by (simp add: unat_of_nat)
  ultimately show ?case by simp
qed

lemma unat_descriptor:
  assumes "a < 4" "b < 4" "c < 8"
  shows "unat (descriptor_byte (Suc a) (Suc b) (Suc c)) = a + 4 * b + 16 * c"
proof -
  have "a + 4 * b + 16 * c < 256" using assms by simp
  then show ?thesis
    unfolding descriptor_byte_def diff_Suc_1 desc_sum[OF assms] unat_of_nat by simp
qed

lemma slice_app: "slice (xs @ ys @ zs) (length xs) (length xs + length ys) = ys"
  by (simp add: slice_def)

lemma frame_of_encode:
  fixes pre suf :: "byte list"
  assumes "widths_fit e s t streamId ts payload"
  defines "buf \<equiv> pre @ encode_record e s t streamId ts payload @ suf"
  shows "entryLen_at buf (length pre) = e" "sizeLen_at buf (length pre) = s"
    "timestampLen_at buf (length pre) = t"
    "entry_at buf (length pre) = streamId"
    "payloadSize_at buf (length pre) = length payload"
    "timestamp_at buf (length pre) = ts"
    "slice buf (length pre + (1 + e + s + t)) (length pre + (1 + e + s + t) + length payload) = payload"
proof -
  have w: "1 \<le> e" "e \<le> 4" "1 \<le> s" "s \<le> 4" "1 \<le> t" "t \<le> 8"
    "streamId < 256 ^ e" "length payload < 256 ^ s" "ts < 256 ^ t"
    using assms(1) by (simp_all add: widths_fit_def)
  define a b c where "a = e - 1" and "b = s - 1" and "c = t - 1"
  have abc: "e = Suc a" "s = Suc b" "t = Suc c" "a < 4" "b < 4" "c < 8"
    using w(1-6) by (simp_all add: a_def b_def c_def)
  have b0: "unat (buf ! length pre) = a + 4 * b + 16 * c"
    using unat_descriptor[OF abc(4-6)] by (simp add: buf_def encode_record_def abc)
  have m1: "(a + 4 * b + 16 * c) mod 4 = a"
  proof -
    have "a + 4 * b + 16 * c = a + 4 * (b + 4 * c)" by simp
    then show ?thesis using abc(4) by (simp only: mod_mult_self2) simp
  qed
  have m2: "(a + 4 * b + 16 * c) div 4 mod 4 = b"
  proof -
    have "a + 4 * b + 16 * c = a + 4 * (b + 4 * c)" by simp
    then have "(a + 4 * b + 16 * c) div 4 = b + 4 * c" using abc(4) by simp
    then show ?thesis using abc(5) by simp
  qed
  have m3: "(a + 4 * b + 16 * c) div 16 mod 8 = c"
  proof -
    have "a + 4 * b < 16" using abc(4,5) by simp
    then have "(a + 4 * b + 16 * c) div 16 = c" by simp
    then show ?thesis using abc(6) by simp
  qed
  note m = m1 m2 m3
  show e: "entryLen_at buf (length pre) = e"
    unfolding entryLen_at_def b0 and3 using m1 abc(1) by simp
  show s: "sizeLen_at buf (length pre) = s"
    unfolding sizeLen_at_def b0 and3 drop_bit_eq_div using m2 abc(2) by simp
  show t: "timestampLen_at buf (length pre) = t"
    unfolding timestampLen_at_def b0 and7 drop_bit_eq_div using m3 abc(3) by simp
  have s1: "slice buf (length pre + 1) (length pre + 1 + e) = le_bytes e streamId"
    using slice_app[of "pre @ [descriptor_byte e s t]" "le_bytes e streamId"
        "le_bytes s (length payload) @ le_bytes t ts @ payload @ suf"]
    by (simp add: buf_def encode_record_def length_le_bytes)
  have s2: "slice buf (length pre + 1 + e) (length pre + 1 + e + s) = le_bytes s (length payload)"
    using slice_app[of "pre @ [descriptor_byte e s t] @ le_bytes e streamId" "le_bytes s (length payload)"
        "le_bytes t ts @ payload @ suf"]
    by (simp add: buf_def encode_record_def length_le_bytes add.assoc)
  have s3: "slice buf (length pre + 1 + e + s) (length pre + (1 + e + s + t)) = le_bytes t ts"
    using slice_app[of "pre @ [descriptor_byte e s t] @ le_bytes e streamId @ le_bytes s (length payload)"
        "le_bytes t ts" "payload @ suf"]
    by (simp add: buf_def encode_record_def length_le_bytes add.assoc)
  show "entry_at buf (length pre) = streamId"
    unfolding entry_at_def e s1 using w(7) by (rule from_bytes_le_bytes)
  show "payloadSize_at buf (length pre) = length payload"
    unfolding payloadSize_at_def e s s2 using w(8) by (rule from_bytes_le_bytes)
  show "timestamp_at buf (length pre) = ts"
    unfolding timestamp_at_def headerLen_at_def e s t s3 using w(9) by (rule from_bytes_le_bytes)
  show "slice buf (length pre + (1 + e + s + t)) (length pre + (1 + e + s + t) + length payload) = payload"
    using slice_app[of "pre @ [descriptor_byte e s t] @ le_bytes e streamId @ le_bytes s (length payload) @ le_bytes t ts"
        payload suf]
    by (simp add: buf_def encode_record_def length_le_bytes add.assoc)
qed

lemma length_encode: "length (encode_record e s t streamId ts payload) = 1 + e + s + t + length payload"
  by (simp add: encode_record_def length_le_bytes)

lemma next_encode:
  assumes "widths_fit e s t streamId ts payload"
  shows "next (pre @ encode_record e s t streamId ts payload @ suf) (length pre)
     = Inr (Some (\<lparr>entry = streamId, timestamp = ts, data = payload\<rparr>,
                  length pre + (1 + e + s + t) + length payload))"
  using frame_of_encode[OF assms, of pre suf] assms[unfolded widths_fit_def]
  by (simp add: next_char framed_def record_at_def headerLen_at_def length_encode)

lemma records_char:
  "records buf pos =
     (if framed buf pos
      then (case records buf (pos + headerLen_at buf pos + payloadSize_at buf pos) of
              Inl e \<Rightarrow> Inl e | Inr rs \<Rightarrow> Inr (record_at buf pos # rs))
      else Inr [])"
  by (subst records.simps) (simp add: next_char)

lemma records_bound: "\<exists>rs. records buf pos = Inr rs \<and> 4 * length rs \<le> length buf - pos"
proof (induction buf pos rule: records.induct)
  case (1 buf pos)
  show ?case
  proof (cases "framed buf pos")
    case False
    then show ?thesis by (subst records_char) simp
  next
    case True
    let ?pos' = "pos + headerLen_at buf pos + payloadSize_at buf pos"
    have n: "next buf pos = Inr (Some (record_at buf pos, ?pos'))"
      using True by (simp add: next_char)
    from "1.IH"[OF n refl refl] obtain rs where
      rs: "records buf ?pos' = Inr rs" "4 * length rs \<le> length buf - ?pos'"
      by blast
    have "?pos' \<le> length buf" using True by (simp add: framed_def)
    moreover have "pos + 4 \<le> ?pos'" using headerLen_at_ge[of buf pos] by simp
    ultimately have "4 * length (record_at buf pos # rs) \<le> length buf - pos"
      using rs(2) by simp
    then show ?thesis using True rs(1) by (subst records_char) simp
  qed
qed

lemma length_slice: "b \<le> length xs \<Longrightarrow> length (slice xs a b) = b - a"
  by (simp add: slice_def)

text \<open>
  C2. Round trip of one record. For header field widths \<open>e, s\<close> in 1..4 and \<open>t\<close> in 1..8
  that can represent the stream id, the payload length and the timestamp, the bytes
  \<open>encode_record e s t streamId ts payload\<close>, placed at any cursor of a buffer, are
  decoded by one step of the iterator to exactly \<open>(streamId, ts, payload)\<close>, and the
  cursor advances by the header length \<open>1 + e + s + t\<close> plus the payload length.
\<close>

theorem roundtrip_record:
  assumes "widths_fit e s t streamId ts payload"
  shows "next (pre @ encode_record e s t streamId ts payload @ suf) (length pre)
     = Inr (Some (\<lparr>entry = streamId, timestamp = ts, data = payload\<rparr>,
                  length pre + (1 + e + s + t) + length payload))"
  using assms by (rule next_encode)

text \<open>
  C9. Iteration terminates. A step that returns a record moves the cursor forward by the
  header length plus the payload length, the header length is at least 4, the cursor
  stays inside the buffer and the number of remaining bytes strictly decreases. The
  iteration from any cursor returns a list of records (\<open>records\<close> is a total function)
  of at most \<open>(length buf - pos) div 4\<close> elements.
\<close>

theorem iteration_terminates:
  "(\<forall>r pos'. next buf pos = Inr (Some (r, pos')) \<longrightarrow>
      pos' = pos + headerLen_at buf pos + length (data r) \<and> 4 \<le> headerLen_at buf pos
      \<and> pos' \<le> length buf \<and> length buf - pos' < length buf - pos)
   \<and> (\<exists>rs. records buf pos = Inr rs \<and> length rs \<le> (length buf - pos) div 4)"
proof (intro conjI allI impI)
  fix r pos'
  assume a: "next buf pos = Inr (Some (r, pos'))"
  then have f: "framed buf pos" and r: "r = record_at buf pos"
    and p: "pos' = pos + headerLen_at buf pos + payloadSize_at buf pos"
    by (simp_all add: next_char split: if_splits)
  have le: "pos' \<le> length buf" using f p by (simp add: framed_def)
  have "length (data r) = payloadSize_at buf pos"
    using le by (simp add: r record_at_def length_slice p)
  then show "pos' = pos + headerLen_at buf pos + length (data r)" using p by simp
  show "4 \<le> headerLen_at buf pos" by (rule headerLen_at_ge)
  show "pos' \<le> length buf" by (rule le)
  show "length buf - pos' < length buf - pos"
    using le p headerLen_at_ge[of buf pos] by simp
next
  from records_bound[of buf pos] obtain rs where
    "records buf pos = Inr rs" "4 * length rs \<le> length buf - pos" by blast
  then show "\<exists>rs. records buf pos = Inr rs \<and> length rs \<le> (length buf - pos) div 4"
    by (intro exI[of _ rs]) simp
qed

lemma le_bytes_unfold:
  "le_bytes n v = (if n = 0 then [] else of_nat (v mod 256) # le_bytes (n - 1) (v div 256))"
  by (cases n) simp_all

theorem roundtrip_record_witness:
  "widths_fit 2 1 3 300 70000 [1, 2, 3]
   \<and> encode_record 2 1 3 300 70000 [1, 2, 3] = [0x21, 0x2C, 0x01, 0x03, 0x70, 0x11, 0x01, 1, 2, 3]
   \<and> next ([0xAA] @ [0x21, 0x2C, 0x01, 0x03, 0x70, 0x11, 0x01, 1, 2, 3] @ [0xBB]) 1
       = Inr (Some (\<lparr>entry = 300, timestamp = 70000, data = [1, 2, 3]\<rparr>, 11))"
proof -
  have w: "widths_fit 2 1 3 300 70000 [1, 2, 3]" by (simp add: widths_fit_def)
  have e: "encode_record 2 1 3 300 70000 [1, 2, 3]
      = [0x21, 0x2C, 0x01, 0x03, 0x70, 0x11, 0x01, 1, 2, 3]"
    by (simp add: encode_record_def descriptor_byte_def le_bytes_unfold)
  show ?thesis using w roundtrip_record[OF w, of "[0xAA]" "[0xBB]"] unfolding e by simp
qed

theorem iteration_terminates_witness:
  "next [0, 5, 1, 7, 9] 0 = Inr (Some (\<lparr>entry = 5, timestamp = 7, data = [9]\<rparr>, 5))
   \<and> 5 = 0 + headerLen_at [0, 5, 1, 7, 9] 0 + length [9 :: byte]
   \<and> 4 \<le> headerLen_at [0, 5, 1, 7, 9] 0
   \<and> 5 \<le> length [0, 5, 1, 7, 9 :: byte]
   \<and> (\<exists>rs. records [0, 5, 1, 7, 9] 0 = Inr rs \<and> length rs \<le> 1)"
proof -
  have w: "widths_fit 1 1 1 5 7 [9]" by (simp add: widths_fit_def)
  have e: "encode_record 1 1 1 5 7 [9] = [0, 5, 1, 7, 9]"
    by (simp add: encode_record_def descriptor_byte_def)
  have n: "next [0, 5, 1, 7, 9] 0 = Inr (Some (\<lparr>entry = 5, timestamp = 7, data = [9]\<rparr>, 5))"
    using next_encode[OF w, of "[]" "[]"] unfolding e by simp
  show ?thesis using n iteration_terminates[of "[0, 5, 1, 7, 9]" 0] by simp
qed

lemma slice_prefix: "b \<le> length xs \<Longrightarrow> slice (xs @ ys) a b = slice xs a b"
  by (simp add: slice_def)

lemma next_encode_frame:
  assumes "frame_fits f"
  shows "next (pre @ encode_frame f @ suf) (length pre)
     = Inr (Some (snd f, length (pre @ encode_frame f)))"
proof -
  obtain e s t r where f: "f = ((e, s, t), r)" by (cases f) auto
  have r: "\<lparr>entry = entry r, timestamp = timestamp r, data = data r\<rparr> = r" by simp
  show ?thesis
    using next_encode[of e s t "entry r" "timestamp r" "data r" pre suf] assms
    unfolding f by (simp add: length_encode r)
qed

lemma records_frames:
  assumes "\<forall>f\<in>set fs. frame_fits f"
  shows "records (pre @ concat (map encode_frame fs) @ rest) (length pre)
     = (case records (pre @ concat (map encode_frame fs) @ rest)
               (length pre + length (concat (map encode_frame fs))) of
          Inl e \<Rightarrow> Inl e | Inr rs \<Rightarrow> Inr (map snd fs @ rs))"
  using assms
proof (induction fs arbitrary: pre)
  case Nil
  show ?case by (simp split: sum.split)
next
  case (Cons f fs)
  let ?buf = "pre @ concat (map encode_frame (f # fs)) @ rest"
  have b: "?buf = pre @ encode_frame f @ (concat (map encode_frame fs) @ rest)" by simp
  have n: "next ?buf (length pre) = Inr (Some (snd f, length (pre @ encode_frame f)))"
    unfolding b using Cons.prems by (intro next_encode_frame) simp
  have ih: "records ?buf (length (pre @ encode_frame f))
     = (case records ?buf (length (pre @ encode_frame f) + length (concat (map encode_frame fs))) of
          Inl e \<Rightarrow> Inl e | Inr rs \<Rightarrow> Inr (map snd fs @ rs))"
    using Cons.IH[of "pre @ encode_frame f"] Cons.prems by simp
  have "records ?buf (length pre)
      = (case records ?buf (length (pre @ encode_frame f)) of
           Inl e \<Rightarrow> Inl e | Inr rs \<Rightarrow> Inr (snd f # rs))"
    by (subst records.simps) (simp only: n sum.case option.case prod.case)
  also have "\<dots> = (case records ?buf (length pre + length (concat (map encode_frame (f # fs)))) of
          Inl e \<Rightarrow> Inl e | Inr rs \<Rightarrow> Inr (map snd (f # fs) @ rs))"
    unfolding ih by (simp add: add.assoc split: sum.split)
  finally show ?case .
qed

lemma truncated_not_framed:
  assumes w: "widths_fit e s t streamId ts payload"
    and k: "k < length (encode_record e s t streamId ts payload)"
  shows "\<not> framed (pre @ take k (encode_record e s t streamId ts payload)) (length pre)"
proof
  let ?enc = "encode_record e s t streamId ts payload"
  let ?T = "pre @ take k ?enc" and ?F = "pre @ ?enc @ []" and ?p = "length pre"
  assume fr: "framed ?T ?p"
  have lenT: "length ?T = ?p + k" using k by simp
  have F: "?F = ?T @ drop k ?enc" by simp
  have k4: "4 \<le> k" using fr lenT by (simp add: framed_def)
  then have b0: "?T ! ?p = ?F ! ?p" by (simp add: nth_append)
  have e: "entryLen_at ?T ?p = e" and s: "sizeLen_at ?T ?p = s" and t: "timestampLen_at ?T ?p = t"
    using frame_of_encode(1-3)[OF w, of pre "[]"]
    unfolding entryLen_at_def sizeLen_at_def timestampLen_at_def b0 by simp_all
  have h: "headerLen_at ?T ?p = 1 + e + s + t" by (simp add: headerLen_at_def e s t)
  have hk: "1 + e + s + t \<le> k" using fr lenT h by (simp add: framed_def)
  have "slice ?F (?p + 1 + e) (?p + 1 + e + s) = slice ?T (?p + 1 + e) (?p + 1 + e + s)"
    unfolding F using hk lenT by (intro slice_prefix) simp
  then have "payloadSize_at ?T ?p = payloadSize_at ?F ?p"
    using frame_of_encode(1-2)[OF w, of pre "[]"] by (simp add: payloadSize_at_def e s)
  then have "payloadSize_at ?T ?p = length payload"
    using frame_of_encode(5)[OF w, of pre "[]"] by simp
  then have "?p + (1 + e + s + t) + length payload \<le> ?p + k"
    using fr lenT h by (simp add: framed_def)
  then show False using k by (simp add: length_encode)
qed

lemma records_truncated:
  assumes "\<forall>f\<in>set fs. frame_fits f" "frame_fits f" "k < length (encode_frame f)"
  shows "records (pre @ concat (map encode_frame fs) @ take k (encode_frame f)) (length pre)
     = Inr (map snd fs)"
proof -
  obtain e s t r where f: "f = ((e, s, t), r)" by (cases f) auto
  let ?pre = "pre @ concat (map encode_frame fs)"
  have "\<not> framed (?pre @ take k (encode_frame f)) (length ?pre)"
    using assms(2,3) unfolding f encode_frame.simps frame_fits.simps
    by (rule truncated_not_framed)
  then have "records (?pre @ take k (encode_frame f)) (length ?pre) = Inr []"
    by (subst records_char) simp
  then show ?thesis
    using records_frames[OF assms(1), of pre "take k (encode_frame f)"] by simp
qed

lemma records_whole:
  assumes "\<forall>f\<in>set fs. frame_fits f"
  shows "records (pre @ concat (map encode_frame fs)) (length pre) = Inr (map snd fs)"
proof -
  let ?buf = "pre @ concat (map encode_frame fs)"
  have "\<not> framed ?buf (length ?buf)" by (simp add: framed_def)
  then have "records ?buf (length ?buf) = Inr []" by (subst records_char) simp
  then show ?thesis using records_frames[OF assms, of pre "[]"] by simp
qed

text \<open>
  C3. Iteration yields the fully framed records and then stops without an error. At a
  cursor where fewer than 4 bytes remain, or the declared header does not fit, or the
  declared payload does not fit, the step is StopIteration and the iteration from there
  is empty; otherwise the step returns the record at the cursor and the iteration
  continues after it. A buffer that holds the frames \<open>fs\<close> from the cursor on yields
  exactly their records; so does a buffer where they are followed by a last frame that
  misses its final \<open>d\<close> payload bytes (\<open>d = 2\<close> in particular).
\<close>

theorem iteration_stops_silently:
  "(length buf < pos + 4 \<or> length buf < pos + headerLen_at buf pos
      \<or> length buf < pos + headerLen_at buf pos + payloadSize_at buf pos
    \<longrightarrow> next buf pos = Inr None \<and> records buf pos = Inr [])
   \<and> (pos + 4 \<le> length buf \<and> pos + headerLen_at buf pos \<le> length buf
      \<and> pos + headerLen_at buf pos + payloadSize_at buf pos \<le> length buf
    \<longrightarrow> next buf pos
          = Inr (Some (record_at buf pos, pos + headerLen_at buf pos + payloadSize_at buf pos))
        \<and> (\<exists>rs. records buf (pos + headerLen_at buf pos + payloadSize_at buf pos) = Inr rs
              \<and> records buf pos = Inr (record_at buf pos # rs)))
   \<and> ((\<forall>f\<in>set fs. frame_fits f)
    \<longrightarrow> records (pre @ concat (map encode_frame fs)) (length pre) = Inr (map snd fs))
   \<and> ((\<forall>f\<in>set fs. frame_fits f) \<and> frame_fits f \<and> 0 < d \<and> d \<le> length (data (snd f))
    \<longrightarrow> records (pre @ concat (map encode_frame fs)
                  @ take (length (encode_frame f) - d) (encode_frame f)) (length pre)
          = Inr (map snd fs))"
proof (intro conjI impI)
  assume "length buf < pos + 4 \<or> length buf < pos + headerLen_at buf pos
      \<or> length buf < pos + headerLen_at buf pos + payloadSize_at buf pos"
  then have nf: "\<not> framed buf pos" by (auto simp: framed_def)
  then show "next buf pos = Inr None" by (simp add: next_char)
  from nf show "records buf pos = Inr []" by (subst records_char) simp
next
  let ?pos' = "pos + headerLen_at buf pos + payloadSize_at buf pos"
  assume "pos + 4 \<le> length buf \<and> pos + headerLen_at buf pos \<le> length buf
      \<and> pos + headerLen_at buf pos + payloadSize_at buf pos \<le> length buf"
  then have f: "framed buf pos" by (simp add: framed_def)
  then show "next buf pos = Inr (Some (record_at buf pos, ?pos'))" by (simp add: next_char)
  obtain rs where rs: "records buf ?pos' = Inr rs" using records_bound[of buf ?pos'] by blast
  then have "records buf pos = Inr (record_at buf pos # rs)"
    using f by (subst records_char) simp
  with rs show "\<exists>rs. records buf ?pos' = Inr rs \<and> records buf pos = Inr (record_at buf pos # rs)"
    by blast
next
  assume "\<forall>f\<in>set fs. frame_fits f"
  then show "records (pre @ concat (map encode_frame fs)) (length pre) = Inr (map snd fs)"
    by (rule records_whole)
next
  assume a: "(\<forall>f\<in>set fs. frame_fits f) \<and> frame_fits f \<and> 0 < d \<and> d \<le> length (data (snd f))"
  obtain e s t r where f: "f = ((e, s, t), r)" by (cases f) auto
  have "0 < length (encode_frame f)" by (simp add: f length_encode)
  then have "length (encode_frame f) - d < length (encode_frame f)" using a by simp
  then show "records (pre @ concat (map encode_frame fs)
                  @ take (length (encode_frame f) - d) (encode_frame f)) (length pre)
          = Inr (map snd fs)"
    using a by (intro records_truncated) simp_all
qed

theorem iteration_stops_silently_witness:
  "encode_frame ((1, 1, 1), \<lparr>entry = 5, timestamp = 7, data = [9]\<rparr>) = [0, 5, 1, 7, 9]
   \<and> encode_frame ((1, 1, 1), \<lparr>entry = 6, timestamp = 8, data = [1, 2, 3]\<rparr>)
       = [0, 6, 3, 8, 1, 2, 3]
   \<and> records ([0xFF] @ [0, 5, 1, 7, 9] @ [0, 6, 3, 8, 1]) 1
       = Inr [\<lparr>entry = 5, timestamp = 7, data = [9]\<rparr>]
   \<and> records ([0xFF] @ [0, 5, 1, 7, 9]) 1 = Inr [\<lparr>entry = 5, timestamp = 7, data = [9]\<rparr>]
   \<and> next [0, 6, 3, 8, 1] 0 = Inr None \<and> records [0, 6, 3, 8, 1] 0 = Inr []
   \<and> next [0, 5, 1, 7, 9] 0 = Inr (Some (record_at [0, 5, 1, 7, 9] 0, 5))
   \<and> (\<exists>rs. records [0, 5, 1, 7, 9] 5 = Inr rs
         \<and> records [0, 5, 1, 7, 9] 0 = Inr (record_at [0, 5, 1, 7, 9] 0 # rs))"
proof -
  define f1 :: frame where "f1 = ((1, 1, 1), \<lparr>entry = 5, timestamp = 7, data = [9]\<rparr>)"
  define f2 :: frame where "f2 = ((1, 1, 1), \<lparr>entry = 6, timestamp = 8, data = [1, 2, 3]\<rparr>)"
  have e1: "encode_frame f1 = [0, 5, 1, 7, 9]"
    by (simp add: f1_def encode_record_def descriptor_byte_def)
  have e2: "encode_frame f2 = [0, 6, 3, 8, 1, 2, 3]"
    by (simp add: f2_def encode_record_def descriptor_byte_def)
  have w: "frame_fits f1" "frame_fits f2" "snd f1 = \<lparr>entry = 5, timestamp = 7, data = [9]\<rparr>"
    "length (data (snd f2)) = 3"
    by (simp_all add: f1_def f2_def widths_fit_def)
  have h1: "headerLen_at [0, 6, 3, 8, 1] 0 = 4" "payloadSize_at [0, 6, 3, 8, 1] 0 = 3"
    "headerLen_at [0, 5, 1, 7, 9] 0 = 4" "payloadSize_at [0, 5, 1, 7, 9] 0 = 1"
    by (simp_all add: headerLen_at_def payloadSize_at_def entryLen_at_def sizeLen_at_def
        timestampLen_at_def slice_def)
  have t: "records ([0xFF] @ [0, 5, 1, 7, 9] @ [0, 6, 3, 8, 1]) 1
       = Inr [\<lparr>entry = 5, timestamp = 7, data = [9]\<rparr>]"
    using iteration_stops_silently[where buf="[]" and pos=0 and fs="[f1]" and pre="[0xFF]"
        and d=2 and f=f2]
    by (simp add: e1 e2 w)
  have u: "records ([0xFF] @ [0, 5, 1, 7, 9]) 1 = Inr [\<lparr>entry = 5, timestamp = 7, data = [9]\<rparr>]"
    using iteration_stops_silently[where buf="[]" and pos=0 and fs="[f1]" and pre="[0xFF]"
        and d=2 and f=f2]
    by (simp add: e1 e2 w)
  have s: "next [0, 6, 3, 8, 1] 0 = Inr None \<and> records [0, 6, 3, 8, 1] 0 = Inr []"
    using iteration_stops_silently[where buf="[0, 6, 3, 8, 1]" and pos=0 and fs="[]"
        and pre="[]" and d=2 and f=f2] h1
    by simp
  have y: "next [0, 5, 1, 7, 9] 0 = Inr (Some (record_at [0, 5, 1, 7, 9] 0, 5))
   \<and> (\<exists>rs. records [0, 5, 1, 7, 9] 5 = Inr rs
         \<and> records [0, 5, 1, 7, 9] 0 = Inr (record_at [0, 5, 1, 7, 9] 0 # rs))"
    using iteration_stops_silently[where buf="[0, 5, 1, 7, 9]" and pos=0 and fs="[]"
        and pre="[]" and d=2 and f=f2] h1
    by simp
  show ?thesis using e1[unfolded f1_def] e2[unfolded f2_def] t u s y by blast
qed

subsection \<open>String arrays\<close>

lemma readInnerString_lp:
  assumes d: "data r = pre @ lp_string bs @ suf"
    and l: "length bs < 2 ^ 32" and u: "utf8_decode bs = Inr s"
  shows "readInnerString r (length pre) = Inr (s, length pre + 4 + length bs)"
proof -
  have d': "data r = pre @ le_bytes 4 (length bs) @ (bs @ suf)"
    by (simp add: d lp_string_def)
  have s1: "slice (data r) (length pre) (length pre + 4) = le_bytes 4 (length bs)"
    unfolding d' using slice_app[of pre "le_bytes 4 (length bs)" "bs @ suf"]
    by (simp add: length_le_bytes)
  have sz: "from_bytes_le (le_bytes 4 (length bs)) = length bs"
    using l by (intro from_bytes_le_bytes) simp
  have s2: "slice (data r) (length pre + 4) (length pre + 4 + length bs) = bs"
    using slice_app[of "pre @ le_bytes 4 (length bs)" bs suf]
    by (simp add: d' length_le_bytes)
  have len: "length pre + 4 + length bs \<le> length (data r)"
    by (simp add: d' length_le_bytes)
  show ?thesis
    using len by (simp add: readInnerString_def Let_def s1 sz s2 u)
qed

lemma readStrings_lp:
  assumes "data r = pre @ concat (map lp_string bss) @ suf"
    and "\<forall>bs\<in>set bss. length bs < 2 ^ 32"
    and "list_all2 (\<lambda>bs s. utf8_decode bs = Inr s) bss ss"
  shows "readStrings r (length bss) (length pre) arr = Inr (arr @ ss)"
  using assms
proof (induction bss arbitrary: pre arr ss)
  case Nil
  then show ?case by simp
next
  case (Cons bs bss)
  from Cons.prems(3) obtain s ss' where ss: "ss = s # ss'" "utf8_decode bs = Inr s"
    "list_all2 (\<lambda>bs s. utf8_decode bs = Inr s) bss ss'"
    by (auto simp: list_all2_Cons1)
  have d: "data r = pre @ lp_string bs @ (concat (map lp_string bss) @ suf)"
    using Cons.prems(1) by simp
  have r1: "readInnerString r (length pre) = Inr (s, length pre + 4 + length bs)"
    using d Cons.prems(2) ss(2) by (intro readInnerString_lp) simp_all
  have d2: "data r = (pre @ lp_string bs) @ concat (map lp_string bss) @ suf"
    using d by simp
  have "readStrings r (length bss) (length (pre @ lp_string bs)) (arr @ [s]) = Inr ((arr @ [s]) @ ss')"
    using d2 Cons.prems(2) ss(3) by (intro Cons.IH) simp_all
  then show ?case
    by (simp add: r1 ss(1) lp_string_def length_le_bytes add.assoc)
qed

lemma getStringArray_lp:
  assumes d: "data r = le_bytes 4 (length bss) @ concat (map lp_string bss) @ suf"
    and n: "length bss < 2 ^ 32"
    and l: "\<forall>bs\<in>set bss. length bs < 2 ^ 32"
    and u: "list_all2 (\<lambda>bs s. utf8_decode bs = Inr s) bss ss"
  shows "getStringArray r = Inr ss"
proof -
  have s1: "slice (data r) 0 4 = le_bytes 4 (length bss)"
    using slice_app[of "[]" "le_bytes 4 (length bss)" "concat (map lp_string bss) @ suf"]
    by (simp add: d length_le_bytes)
  have sz: "from_bytes_le (le_bytes 4 (length bss)) = length bss"
    using n by (intro from_bytes_le_bytes) simp
  have "4 * length bss \<le> length (concat (map lp_string bss))"
  proof (induction bss)
    case Nil show ?case by simp
  next
    case (Cons a bss) then show ?case by (simp add: lp_string_def length_le_bytes)
  qed
  then have b: "\<not> real (length bss) > (real_of_int (int (length (data r)) - 4)) / 4"
    by (simp add: d length_le_bytes)
  have "readStrings r (length bss) (length (le_bytes 4 (length bss))) [] = Inr ([] @ ss)"
    using d l u by (intro readStrings_lp) simp_all
  then show ?thesis
    using b by (simp add: getStringArray_def Let_def s1 sz length_le_bytes)
qed

lemma getStringArray_bound:
  "getStringArray r =
     (if real (from_bytes_le (take 4 (data r))) > (real_of_int (int (length (data r)) - 4)) / 4
      then Inl TypeError
      else readStrings r (from_bytes_le (take 4 (data r))) 4 [])"
  by (simp add: getStringArray_def Let_def slice_def)

text \<open>
  C6. \<open>getStringArray\<close> reads the first 4 payload bytes as a little-endian count \<open>n\<close>.
  If \<open>n > (payloadLength - 4) / 4\<close> it raises TypeError (the shape mismatch); otherwise
  it reads \<open>n\<close> length-prefixed strings one after the other from offset 4. A payload
  made of the count and that many length-prefixed valid UTF-8 strings (whatever follows
  them) decodes to the list of these strings; \<open>[n=2][len=3]"abc"[len=2]"xy"\<close> decodes to
  \<open>["abc", "xy"]\<close>.
\<close>

theorem getStringArray_spec:
  "(real (from_bytes_le (take 4 (data r))) > real_of_int (int (length (data r)) - 4) / 4
      \<longrightarrow> getStringArray r = Inl TypeError)
   \<and> (\<not> real (from_bytes_le (take 4 (data r))) > real_of_int (int (length (data r)) - 4) / 4
      \<longrightarrow> getStringArray r = readStrings r (from_bytes_le (take 4 (data r))) 4 [])
   \<and> (data r = le_bytes 4 (length bss) @ concat (map lp_string bss) @ suf
        \<and> length bss < 2 ^ 32 \<and> (\<forall>bs\<in>set bss. length bs < 2 ^ 32)
        \<and> list_all2 (\<lambda>bs s. utf8_decode bs = Inr s) bss ss
      \<longrightarrow> getStringArray r = Inr ss)
   \<and> getStringArray
         \<lparr>entry = e, timestamp = t,
          data = [2, 0, 0, 0, 3, 0, 0, 0, 97, 98, 99, 2, 0, 0, 0, 120, 121]\<rparr>
       = Inr [lit ''abc'', lit ''xy'']"
proof (intro conjI impI)
  let ?r = "\<lparr>entry = e, timestamp = t,
          data = [2, 0, 0, 0, 3, 0, 0, 0, 97, 98, 99, 2, 0, 0, 0, 120, 121 :: byte]\<rparr>"
  let ?bss = "[[97, 98, 99], [120, 121]] :: byte list list"
  have d: "data ?r = le_bytes 4 (length ?bss) @ concat (map lp_string ?bss) @ []"
    by (simp add: lp_string_def le_bytes_unfold)
  have u: "list_all2 (\<lambda>bs s. utf8_decode bs = Inr s) ?bss [lit ''abc'', lit ''xy'']"
    by (simp add: utf8_decode_def lit_def)
  show "getStringArray ?r = Inr [lit ''abc'', lit ''xy'']"
    using d _ _ u by (rule getStringArray_lp) simp_all
next
  assume "real (from_bytes_le (take 4 (data r))) > real_of_int (int (length (data r)) - 4) / 4"
  then show "getStringArray r = Inl TypeError"
    by (subst getStringArray_bound) simp
next
  assume "\<not> real (from_bytes_le (take 4 (data r))) > real_of_int (int (length (data r)) - 4) / 4"
  then show "getStringArray r = readStrings r (from_bytes_le (take 4 (data r))) 4 []"
    by (subst getStringArray_bound) simp
next
  assume "data r = le_bytes 4 (length bss) @ concat (map lp_string bss) @ suf
        \<and> length bss < 2 ^ 32 \<and> (\<forall>bs\<in>set bss. length bs < 2 ^ 32)
        \<and> list_all2 (\<lambda>bs s. utf8_decode bs = Inr s) bss ss"
  then show "getStringArray r = Inr ss"
    by (intro getStringArray_lp[of r bss suf ss]) blast+
qed

theorem getStringArray_spec_witness:
  "getStringArray \<lparr>entry = 1, timestamp = 0, data = [2, 0, 0, 0, 0, 0, 0, 0]\<rparr> = Inl TypeError
   \<and> getStringArray \<lparr>entry = 1, timestamp = 0, data = [1, 0, 0, 0, 2, 0, 0, 0, 0xC3, 0xA9]\<rparr>
       = Inr [[233]]
   \<and> getStringArray \<lparr>entry = 1, timestamp = 0, data = [0, 0, 0, 0]\<rparr> = Inr []"
proof -
  define r1 where "r1 = \<lparr>entry = 1, timestamp = 0, data = [2, 0, 0, 0, 0, 0, 0, 0 :: byte]\<rparr>"
  define r2 where
    "r2 = \<lparr>entry = 1, timestamp = 0, data = [1, 0, 0, 0, 2, 0, 0, 0, 0xC3, 0xA9 :: byte]\<rparr>"
  define r3 where "r3 = \<lparr>entry = 1, timestamp = 0, data = [0, 0, 0, 0 :: byte]\<rparr>"
  define bss :: "byte list list" where "bss = [[0xC3, 0xA9]]"
  have p1: "real (from_bytes_le (take 4 (data r1))) > real_of_int (int (length (data r1)) - 4) / 4"
    by (simp add: r1_def)
  have a: "getStringArray r1 = Inl TypeError"
    using getStringArray_spec[where r = r1 and bss = "[]" and suf = "[]" and ss = "[]"] p1
    by blast
  have p2: "data r2 = le_bytes 4 (length bss) @ concat (map lp_string bss) @ []"
    "length bss < 2 ^ 32" "\<forall>bs\<in>set bss. length bs < 2 ^ 32"
    "list_all2 (\<lambda>bs s. utf8_decode bs = Inr s) bss [[233]]"
    by (simp_all add: r2_def bss_def lp_string_def le_bytes_unfold utf8_decode_def is_cont_def)
  have b: "getStringArray r2 = Inr [[233]]"
    using getStringArray_spec[where r = r2 and bss = bss and suf = "[]" and ss = "[[233]]"] p2
    by blast
  have p3: "data r3 = le_bytes 4 (length ([] :: byte list list)) @ concat (map lp_string []) @ []"
    by (simp add: r3_def le_bytes_unfold)
  have c: "getStringArray r3 = Inr []"
    using getStringArray_spec[where r = r3 and bss = "[]" and suf = "[]" and ss = "[]"] p3
    by simp
  show ?thesis using a b c unfolding r1_def r2_def r3_def by blast
qed

subsection \<open>The reconstruction loop\<close>

lemma isStart_eq:
  "isStart r = Inr (entry r = 0 \<and> 17 \<le> length (data r) \<and> unat (hd (data r)) = 0)"
  by (cases "data r")
    (simp_all add: isStart_def getControlType_def getitem_def kControlStart_def)

lemma isFinish_eq:
  "isFinish r = Inr (entry r = 0 \<and> length (data r) = 5 \<and> unat (hd (data r)) = 1)"
  by (cases "data r")
    (simp_all add: isFinish_def getControlType_def getitem_def kControlFinish_def)

lemma isSetMetadata_eq:
  "isSetMetadata r = Inr (entry r = 0 \<and> 9 \<le> length (data r) \<and> unat (hd (data r)) = 2)"
  by (cases "data r")
    (simp_all add: isSetMetadata_def getControlType_def getitem_def kControlSetMetadata_def)

lemma convert_loop_records:
  "convert_loop fmt buf pos st
     = (case records buf pos of Inl e \<Rightarrow> Inl e | Inr rs \<Rightarrow> run_records fmt st rs)"
proof (induction buf pos arbitrary: st rule: records.induct)
  case (1 buf pos)
  show ?case
  proof (cases "framed buf pos")
    case False
    then show ?thesis
      by (subst convert_loop.simps, subst records_char) (simp add: next_char)
  next
    case True
    let ?pos' = "pos + headerLen_at buf pos + payloadSize_at buf pos"
    let ?r = "record_at buf pos"
    have n: "next buf pos = Inr (Some (?r, ?pos'))" using True by (simp add: next_char)
    obtain rs where rs: "records buf ?pos' = Inr rs" using records_bound[of buf ?pos'] by blast
    have ih: "\<And>st'. convert_loop fmt buf ?pos' st' = run_records fmt st' rs"
      using "1.IH"[OF n refl refl] rs by simp
    have "records buf pos = Inr (?r # rs)" using True rs by (subst records_char) simp
    moreover have "convert_loop fmt buf pos st
        = (case loop_body fmt st ?r of Inl e \<Rightarrow> Inl e | Inr st' \<Rightarrow> run_records fmt st' rs)"
      by (subst convert_loop.simps) (simp add: n ih split: sum.split)
    ultimately show ?thesis by simp
  qed
qed

lemma readInnerString_exn:
  "readInnerString r pos = Inl e \<Longrightarrow> e = TypeError \<or> e = UnicodeDecodeError"
  by (auto simp: readInnerString_def Let_def utf8_decode_def split: if_splits sum.splits option.splits)

lemma getSetMetadataData_exn:
  "getSetMetadataData r = Inl e \<Longrightarrow> e = TypeError \<or> e = UnicodeDecodeError"
  by (auto simp: getSetMetadataData_def isSetMetadata_eq Let_def
      split: if_splits sum.splits prod.splits dest: readInnerString_exn)

text \<open>
  C7. A set-metadata control record leaves the table of entries (and the rows) as they
  are. The step either keeps the state, or sets the error flag (TypeError from the
  decoding, caught), or leaves the function with the UnicodeDecodeError of the metadata
  string; whenever it returns a state, every entry of the table is the one before.
\<close>

theorem set_metadata_keeps_entries:
  assumes "isSetMetadata r = Inr True"
  shows "(loop_body fmt st r = Inr st
          \<or> loop_body fmt st r = Inr (st\<lparr>error := Some error_message\<rparr>)
          \<or> loop_body fmt st r = Inl UnicodeDecodeError)
     \<and> (\<forall>st'. loop_body fmt st r = Inr st'
            \<longrightarrow> (\<forall>k. entries st' k = entries st k) \<and> output st' = output st)"
proof -
  have c: "entry r = 0 \<and> 9 \<le> length (data r) \<and> unat (hd (data r)) = 2"
    using assms by (simp add: isSetMetadata_eq)
  then have l: "loop_body fmt st r = except_TypeError st (getSetMetadataData r) (\<lambda>d. st)"
    by (simp add: loop_body_def isStart_eq isFinish_eq isSetMetadata_eq)
  show ?thesis
  proof (cases "getSetMetadataData r")
    case (Inl e)
    then show ?thesis
      using getSetMetadataData_exn[OF Inl] by (auto simp: l except_TypeError_def)
  next
    case (Inr d)
    then show ?thesis by (simp add: l except_TypeError_def)
  qed
qed

theorem set_metadata_keeps_entries_witness:
  "isSetMetadata \<lparr>entry = 0, timestamp = 0, data = [2, 7, 0, 0, 0, 9, 0, 0, 0]\<rparr> = Inr True
   \<and> (\<exists>st'. loop_body (\<lambda>x. Inl ValueError)
              \<lparr>entries = [7 \<mapsto> \<lparr>start_entry = 7, start_name = lit ''a'',
                              start_type = lit ''double'', start_metadata = []\<rparr>],
               output = [], error = None\<rparr>
              \<lparr>entry = 0, timestamp = 0, data = [2, 7, 0, 0, 0, 9, 0, 0, 0]\<rparr> = Inr st'
          \<and> error st' = Some error_message
          \<and> entries st' 7 = Some \<lparr>start_entry = 7, start_name = lit ''a'',
                                  start_type = lit ''double'', start_metadata = []\<rparr>)
   \<and> loop_body (\<lambda>x. Inl ValueError) \<lparr>entries = Map.empty, output = [], error = None\<rparr>
        \<lparr>entry = 0, timestamp = 0, data = [2, 7, 0, 0, 0, 1, 0, 0, 0, 0x41]\<rparr>
       = Inr \<lparr>entries = Map.empty, output = [], error = None\<rparr>"
proof -
  define r0 where "r0 = \<lparr>entry = 0, timestamp = 0, data = [2, 7, 0, 0, 0, 9, 0, 0, 0 :: byte]\<rparr>"
  define r1 where
    "r1 = \<lparr>entry = 0, timestamp = 0, data = [2, 7, 0, 0, 0, 1, 0, 0, 0, 0x41 :: byte]\<rparr>"
  define d7 where "d7 = \<lparr>start_entry = 7, start_name = lit ''a'',
                              start_type = lit ''double'', start_metadata = []\<rparr>"
  define st0 where "st0 = \<lparr>entries = [7 \<mapsto> d7], output = [], error = None\<rparr>"
  define st1 :: conv_state where "st1 = \<lparr>entries = Map.empty, output = [], error = None\<rparr>"
  define f :: time_format where "f = (\<lambda>x. Inl ValueError)"
  have i0: "isSetMetadata r0 = Inr True" and i1: "isSetMetadata r1 = Inr True"
    by (simp_all add: r0_def r1_def isSetMetadata_eq)
  have n0: "isStart r0 = Inr False" "isFinish r0 = Inr False"
    and n1: "isStart r1 = Inr False" "isFinish r1 = Inr False"
    by (simp_all add: r0_def r1_def isStart_eq isFinish_eq)
  have g0: "getSetMetadataData r0 = Inl TypeError"
    by (simp add: r0_def getSetMetadataData_def isSetMetadata_eq readInnerString_def slice_def)
  have "loop_body f st0 r0 \<noteq> Inr st0 \<and> loop_body f st0 r0 \<noteq> Inl UnicodeDecodeError"
    by (simp add: loop_body_def n0 i0 g0 except_TypeError_def) (simp add: st0_def)
  then have e0: "loop_body f st0 r0 = Inr (st0\<lparr>error := Some error_message\<rparr>)"
    using set_metadata_keeps_entries[OF i0, of f st0] by blast
  have k0: "entries (st0\<lparr>error := Some error_message\<rparr>) 7 = Some d7"
    using set_metadata_keeps_entries[OF i0, of f st0] e0 by (simp add: st0_def)
  have g1: "getSetMetadataData r1 = Inr \<lparr>md_entry = 7, md_metadata = [0x41]\<rparr>"
    by (simp add: r1_def getSetMetadataData_def isSetMetadata_eq readInnerString_def slice_def
        utf8_decode_def)
  have e1: "loop_body f st1 r1 = Inr st1"
    by (simp add: loop_body_def n1 i1 g1 except_TypeError_def)
  show ?thesis
    using i0 e0 k0 e1 unfolding r0_def r1_def d7_def st0_def st1_def f_def by auto
qed

lemma loop_body_finish:
  assumes "isFinish r = Inr True"
  shows "loop_body fmt st r
     = Inr (if from_bytes_le (slice (data r) 1 5) \<in> dom (entries st)
            then st\<lparr>entries := (entries st)(from_bytes_le (slice (data r) 1 5) := None)\<rparr>
            else st)"
proof -
  have c: "entry r = 0 \<and> length (data r) = 5 \<and> unat (hd (data r)) = 1"
    using assms by (simp add: isFinish_eq)
  then show ?thesis
    by (simp add: loop_body_def isStart_eq assms getFinishEntry_def except_TypeError_def)
qed

lemma loop_body_unknown:
  assumes "entry r \<noteq> 0" "entries st (entry r) = None"
  shows "loop_body fmt st r = Inr st"
  using assms
  by (simp add: loop_body_def isStart_eq isFinish_eq isSetMetadata_eq isControl_def)

lemma loop_body_keeps_absent:
  assumes "entries st X = None" "\<not> declares X r" "loop_body fmt st r = Inr st'"
  shows "entries st' X = None"
proof (cases "isStart r = Inr True")
  case True
  then have "loop_body fmt st r
      = except_TypeError st (getStartData r) (\<lambda>d. st\<lparr>entries := (entries st)(start_entry d \<mapsto> d)\<rparr>)"
    by (simp add: loop_body_def)
  then show ?thesis
    using assms
    by (auto simp: except_TypeError_def declares_def split: sum.splits if_splits)
next
  case False
  then have s: "isStart r = Inr False" by (simp add: isStart_eq)
  show ?thesis
  proof (cases "isFinish r = Inr True")
    case True
    then show ?thesis using assms(1,3) by (auto simp: loop_body_finish split: if_splits)
  next
    case False
    then have f: "isFinish r = Inr False" by (simp add: isFinish_eq)
    show ?thesis
      using assms(1,3)
      by (auto simp: loop_body_def s f isSetMetadata_eq except_TypeError_def raise_or_def
          split: sum.splits if_splits option.splits)
  qed
qed

lemma run_records_drop:
  assumes "X \<noteq> 0" "entries st X = None" "\<forall>r\<in>set rs. \<not> declares X r"
  shows "run_records fmt st rs = run_records fmt st (filter (\<lambda>r. entry r \<noteq> X) rs)
     \<and> (\<forall>st'. run_records fmt st rs = Inr st' \<longrightarrow> entries st' X = None)"
  using assms(2,3)
proof (induction rs arbitrary: st)
  case Nil
  then show ?case by simp
next
  case (Cons r rs)
  show ?case
  proof (cases "entry r = X")
    case True
    then have "loop_body fmt st r = Inr st"
      using assms(1) Cons.prems(1) by (intro loop_body_unknown) simp_all
    then show ?thesis using True Cons.IH[of st] Cons.prems by simp
  next
    case False
    show ?thesis
    proof (cases "loop_body fmt st r")
      case (Inl e)
      then show ?thesis using False by simp
    next
      case (Inr st1)
      have "entries st1 X = None"
        using Cons.prems Inr by (intro loop_body_keeps_absent[of st X r fmt st1]) simp_all
      then show ?thesis using False Inr Cons.IH[of st1] Cons.prems by simp
    qed
  qed
qed

text \<open>
  C5. A finish record for \<open>X\<close> removes the entry of \<open>X\<close> from the table and changes
  nothing else; when \<open>X\<close> has no entry the state is unchanged and no error is set. A
  data record whose id has no entry is skipped: the state, its rows and its error flag
  stay as they are. As long as no start record declares \<open>X\<close> again, \<open>X\<close> stays absent
  and the run over the records is the run without the data records of \<open>X\<close>.
\<close>

theorem finish_then_dropped:
  "(isFinish r = Inr True \<longrightarrow>
      (\<exists>st'. loop_body fmt st r = Inr st'
         \<and> entries st' = (entries st)(from_bytes_le (slice (data r) 1 5) := None)
         \<and> output st' = output st \<and> error st' = error st
         \<and> (entries st (from_bytes_le (slice (data r) 1 5)) = None \<longrightarrow> st' = st)))
   \<and> (entry r \<noteq> 0 \<and> entries st (entry r) = None \<longrightarrow> loop_body fmt st r = Inr st)
   \<and> (X \<noteq> 0 \<and> entries st X = None \<and> (\<forall>r\<in>set rs. \<not> declares X r) \<longrightarrow>
        run_records fmt st rs = run_records fmt st (filter (\<lambda>r. entry r \<noteq> X) rs)
        \<and> (\<forall>st'. run_records fmt st rs = Inr st' \<longrightarrow> entries st' X = None))"
proof (intro conjI impI)
  assume "isFinish r = Inr True"
  then show "\<exists>st'. loop_body fmt st r = Inr st'
         \<and> entries st' = (entries st)(from_bytes_le (slice (data r) 1 5) := None)
         \<and> output st' = output st \<and> error st' = error st
         \<and> (entries st (from_bytes_le (slice (data r) 1 5)) = None \<longrightarrow> st' = st)"
    by (auto simp: loop_body_finish dom_def)
next
  assume "entry r \<noteq> 0 \<and> entries st (entry r) = None"
  then show "loop_body fmt st r = Inr st" by (simp add: loop_body_unknown)
next
  assume a: "X \<noteq> 0 \<and> entries st X = None \<and> (\<forall>r\<in>set rs. \<not> declares X r)"
  then show "run_records fmt st rs = run_records fmt st (filter (\<lambda>r. entry r \<noteq> X) rs)"
    using run_records_drop[of X st rs fmt] by blast
  from a show "\<forall>st'. run_records fmt st rs = Inr st' \<longrightarrow> entries st' X = None"
    using run_records_drop[of X st rs fmt] by blast
qed

theorem finish_then_dropped_witness:
  "isFinish \<lparr>entry = 0, timestamp = 1, data = [1, 7, 0, 0, 0]\<rparr> = Inr True
   \<and> run_records (\<lambda>x. Inl ValueError)
        \<lparr>entries = [7 \<mapsto> \<lparr>start_entry = 7, start_name = lit ''a'',
                        start_type = lit ''double'', start_metadata = []\<rparr>],
         output = [], error = None\<rparr>
        [\<lparr>entry = 0, timestamp = 1, data = [1, 7, 0, 0, 0]\<rparr>,
         \<lparr>entry = 7, timestamp = 2, data = [0, 0, 0, 0, 0, 0, 0x0A, 0x40]\<rparr>]
       = Inr \<lparr>entries = Map.empty, output = [], error = None\<rparr>
   \<and> run_records (\<lambda>x. Inl ValueError) \<lparr>entries = Map.empty, output = [], error = None\<rparr>
        [\<lparr>entry = 7, timestamp = 2, data = [0, 0, 0, 0, 0, 0, 0x0A, 0x40]\<rparr>,
         \<lparr>entry = 7, timestamp = 2, data = [0, 0, 0, 0, 0, 0, 0x0A, 0x40]\<rparr>]
       = Inr \<lparr>entries = Map.empty, output = [], error = None\<rparr>"
proof -
  define rf where "rf = \<lparr>entry = 0, timestamp = 1, data = [1, 7, 0, 0, 0 :: byte]\<rparr>"
  define rd where
    "rd = \<lparr>entry = 7, timestamp = 2, data = [0, 0, 0, 0, 0, 0, 0x0A, 0x40 :: byte]\<rparr>"
  define d7 where "d7 = \<lparr>start_entry = 7, start_name = lit ''a'',
                        start_type = lit ''double'', start_metadata = []\<rparr>"
  define st0 where "st0 = \<lparr>entries = [7 \<mapsto> d7], output = [], error = None\<rparr>"
  define st1 :: conv_state where "st1 = \<lparr>entries = Map.empty, output = [], error = None\<rparr>"
  define f :: time_format where "f = (\<lambda>x. Inl ValueError)"
  have i: "isFinish rf = Inr True" by (simp add: rf_def isFinish_eq)
  have k: "from_bytes_le (slice (data rf) 1 5) = 7" by (simp add: rf_def slice_def)
  from finish_then_dropped[where r = rf and fmt = f and st = st0 and X = 7 and rs = "[]"] i
  obtain st' where st': "loop_body f st0 rf = Inr st'"
    "entries st' = (entries st0)(from_bytes_le (slice (data rf) 1 5) := None)"
    "output st' = output st0" "error st' = error st0"
    by blast
  have eq: "st' = st1"
    using st'(2)[unfolded k] st'(3,4) by (cases st') (simp add: st0_def st1_def)
  have e: "entry rd \<noteq> 0 \<and> entries st1 (entry rd) = None"
    by (simp add: rd_def st1_def)
  have d: "loop_body f st1 rd = Inr st1"
    using finish_then_dropped[where r = rd and fmt = f and st = st1 and X = 7 and rs = "[]"] e
    by blast
  have a: "run_records f st0 [rf, rd] = Inr st1"
    by (simp add: st' eq d)
  have nd: "\<not> declares 7 rd"
    by (simp add: declares_def getStartData_def isStart_eq rd_def)
  have p: "7 \<noteq> (0::nat) \<and> entries st1 7 = None \<and> (\<forall>r\<in>set [rd, rd]. \<not> declares 7 r)"
    using nd by (simp add: st1_def)
  have "run_records f st1 [rd, rd] = run_records f st1 (filter (\<lambda>r. entry r \<noteq> 7) [rd, rd])"
    using finish_then_dropped[where r = rd and fmt = f and st = st1 and X = 7 and rs = "[rd, rd]"] p
    by blast
  then have b: "run_records f st1 [rd, rd] = Inr st1"
    by (simp add: rd_def)
  show ?thesis
    using i a b unfolding rf_def rd_def d7_def st0_def st1_def f_def by simp
qed

subsection \<open>Float division\<close>

lemma bit_length_bounds:
  "0 < n \<Longrightarrow> 2 ^ (bit_length n - 1) \<le> n \<and> n < 2 ^ bit_length n"
proof (induction n rule: bit_length.induct)
  case (1 n)
  show ?case
  proof (cases "n div 2 = 0")
    case True
    then have "n = 1" using "1.prems" by linarith
    then show ?thesis by (simp add: bit_length.simps)
  next
    case False
    then have ih: "2 ^ (bit_length (n div 2) - 1) \<le> n div 2" "n div 2 < 2 ^ bit_length (n div 2)"
      using "1.IH" "1.prems" by simp_all
    have pos: "0 < bit_length (n div 2)"
      using False by (subst bit_length.simps) simp
    have bl: "bit_length n = Suc (bit_length (n div 2))"
      using "1.prems" by (subst bit_length.simps) simp
    have "2 ^ (bit_length n - 1) = 2 * 2 ^ (bit_length (n div 2) - 1)"
      using pos by (cases "bit_length (n div 2)") (simp_all add: bl)
    also have "\<dots> \<le> 2 * (n div 2)" using ih(1) by simp
    also have "\<dots> \<le> n" by simp
    finally have lo: "2 ^ (bit_length n - 1) \<le> n" .
    have "n < 2 * (n div 2) + 2" by linarith
    also have "\<dots> \<le> 2 * 2 ^ bit_length (n div 2)" using ih(2) by simp
    finally have "n < 2 ^ bit_length n" by (simp add: bl)
    with lo show ?thesis by simp
  qed
qed

lemma scaled_real:
  assumes "0 < b"
  shows "0 < snd (scaled a b k)"
    and "real (fst (scaled a b k)) / real (snd (scaled a b k)) = real a / real b * 2 powi (- k)"
proof -
  show "0 < snd (scaled a b k)" using assms by (simp add: scaled_def)
  show "real (fst (scaled a b k)) / real (snd (scaled a b k)) = real a / real b * 2 powi (- k)"
  proof (cases "0 \<le> k")
    case True
    then have "(2::real) powi (- k) = 1 / 2 ^ nat k"
      by (simp add: power_int_minus_divide power_int_nonneg_exp)
    then show ?thesis using True by (simp add: scaled_def)
  next
    case False
    then have "(2::real) powi (- k) = 2 ^ nat (- k)"
      by (simp add: power_int_nonneg_exp)
    then show ?thesis using False by (simp add: scaled_def)
  qed
qed

lemma rne_div_error:
  assumes "0 < d"
  shows "\<bar>real (rne_div n d) - real n / real d\<bar> \<le> 1 / 2"
proof -
  define q r where "q = n div d" and "r = n mod d"
  have n: "real n = real q * real d + real r"
    unfolding q_def r_def by (metis of_nat_add of_nat_mult div_mult_mod_eq)
  have r: "r < d" unfolding r_def using assms by simp
  have dpos: "0 < real d" using assms by simp
  have frac: "real n / real d = real q + real r / real d"
    using dpos by (simp add: n add_divide_distrib)
  consider "2 * r < d" | "d < 2 * r" | "2 * r = d" by linarith
  then show ?thesis
  proof cases
    case 1
    then have "rne_div n d = q" by (simp add: rne_div_def Let_def q_def r_def)
    moreover have "real r / real d \<le> 1 / 2"
      using 1 dpos by (simp add: field_simps)
    ultimately show ?thesis by (simp add: frac)
  next
    case 2
    then have "rne_div n d = q + 1" by (simp add: rne_div_def Let_def q_def r_def)
    moreover have "1 / 2 \<le> real r / real d"
      using 2 dpos by (simp add: field_simps)
    moreover have "real r / real d \<le> 1" using r dpos by simp
    ultimately show ?thesis by (simp add: frac)
  next
    case 3
    then have h: "real r / real d = 1 / 2"
      using dpos by (simp add: field_simps)
    have "rne_div n d = q \<or> rne_div n d = q + 1"
      using 3 by (simp add: rne_div_def Let_def q_def r_def)
    then show ?thesis
    proof
      assume "rne_div n d = q"
      then show ?thesis unfolding frac h by simp
    next
      assume "rne_div n d = q + 1"
      then show ?thesis unfolding frac h by simp
    qed
  qed
qed

lemma floor_log2_bounds:
  assumes "0 < a" "0 < b"
  shows "2 powi (floor_log2 a b) \<le> real a / real b"
    and "real a / real b < 2 powi (floor_log2 a b + 1)"
proof -
  define la lb where "la = bit_length a" and "lb = bit_length b"
  define d where "d = int la - int lb"
  define q where "q = real a / real b"
  have A: "2 ^ (la - 1) \<le> a" "a < 2 ^ la" and B: "2 ^ (lb - 1) \<le> b" "b < 2 ^ lb"
    using bit_length_bounds[OF assms(1)] bit_length_bounds[OF assms(2)]
    by (simp_all add: la_def lb_def)
  have la: "0 < la" and lb: "0 < lb"
    using A(2) B(2) assms by (auto intro: gr0I)
  have rb: "0 < real b" using assms by simp
  have ra: "real a < 2 ^ la" "(2::real) ^ (la - 1) \<le> real a"
    using A by (metis of_nat_less_iff of_nat_numeral of_nat_power,
        metis of_nat_le_iff of_nat_numeral of_nat_power)
  have rbb: "real b < 2 ^ lb" "(2::real) ^ (lb - 1) \<le> real b"
    using B by (metis of_nat_less_iff of_nat_numeral of_nat_power,
        metis of_nat_le_iff of_nat_numeral of_nat_power)
  have p1: "(2::real) powi (d + 1) = 2 ^ la / 2 ^ (lb - 1)"
  proof -
    have "d + 1 = int la - int (lb - 1)" using lb by (simp add: d_def)
    then show ?thesis by (simp add: power_int_diff)
  qed
  have p2: "(2::real) powi (d - 1) = 2 ^ (la - 1) / 2 ^ lb"
  proof -
    have "d - 1 = int (la - 1) - int lb" using la by (simp add: d_def)
    then show ?thesis by (simp add: power_int_diff)
  qed
  have up: "q < 2 powi (d + 1)"
  proof -
    have "q < 2 ^ la / real b" unfolding q_def using ra(1) rb by (simp add: divide_strict_right_mono)
    also have "\<dots> \<le> 2 ^ la / 2 ^ (lb - 1)" using rbb(2) by (simp add: frac_le)
    finally show ?thesis by (simp add: p1)
  qed
  have lo: "2 powi (d - 1) \<le> q"
  proof -
    have "(2::real) ^ (la - 1) / 2 ^ lb \<le> real a / 2 ^ lb" using ra(2) by (simp add: divide_right_mono)
    also have "\<dots> \<le> real a / real b" using rbb(1) rb by (simp add: frac_le)
    finally show ?thesis by (simp add: p2 q_def)
  qed
  have sc: "real (fst (scaled a b d)) / real (snd (scaled a b d)) = q * 2 powi (- d)"
    and sp: "0 < snd (scaled a b d)"
    using scaled_real[OF assms(2), of a d] by (simp_all add: q_def)
  have ge: "snd (scaled a b d) \<le> fst (scaled a b d) \<longleftrightarrow> 2 powi d \<le> q"
  proof -
    have "snd (scaled a b d) \<le> fst (scaled a b d)
        \<longleftrightarrow> 1 \<le> real (fst (scaled a b d)) / real (snd (scaled a b d))"
      using sp by simp
    also have "\<dots> \<longleftrightarrow> 1 \<le> q * 2 powi (- d)" by (simp only: sc)
    also have "\<dots> \<longleftrightarrow> 2 powi d \<le> q"
      by (simp add: power_int_minus field_simps)
    finally show ?thesis .
  qed
  have fl: "floor_log2 a b = (if 2 powi d \<le> q then d else d - 1)"
    using ge by (simp add: floor_log2_def Let_def la_def lb_def d_def)
  show "2 powi (floor_log2 a b) \<le> real a / real b"
    using lo by (simp add: fl q_def[symmetric])
  show "real a / real b < 2 powi (floor_log2 a b + 1)"
    using up by (auto simp: fl q_def[symmetric])
qed

lemma div_mod_field:
  fixes f k q :: nat
  assumes "f < k"
  shows "(q * k + f) div k = q" "(q * k + f) mod k = f"
  using assms by simp_all

lemma double_value_bits:
  assumes m: "2 ^ 52 \<le> m" "m \<le> 2 ^ 53" and e: "- 1022 \<le> e"
    and lt: "nat (e + 1022) * 2 ^ 52 + m < 0x7FF0000000000000"
  shows "double_value (of_nat (nat (e + 1022) * 2 ^ 52 + m)) = Some (real m * 2 powi (e - 52))"
proof -
  define B where "B = nat (e + 1022)"
  define bits where "bits = B * 2 ^ 52 + m"
  have eB: "e = int B - 1022" using e by (simp add: B_def)
  have lt': "bits < 2047 * 2 ^ 52" using lt by (simp add: bits_def B_def)
  have u: "unat (of_nat bits :: 64 word) = bits"
    using lt' by (simp add: unat_of_nat)
  have s: "bits div 2 ^ 63 = 0" using lt' by simp
  show ?thesis
  proof (cases "m = 2 ^ 53")
    case True
    have b: "bits = (B + 2) * 2 ^ 52" by (simp add: bits_def True)
    have d: "bits div 2 ^ 52 = B + 2" and r: "bits mod 2 ^ 52 = 0" by (simp_all add: b)
    have f: "B + 2 < 2047" using lt' by (simp add: b)
    have "double_value (of_nat bits) = Some (real (2 ^ 52) * 2 powi (int (B + 2) - 1075))"
      unfolding double_value_def Let_def u s d r using f by simp
    also have "real (2 ^ 52) * 2 powi (int (B + 2) - 1075) = real m * 2 powi (e - 52)"
    proof -
      have eq: "int (B + 2) - 1075 = (e - 52) + 1" by (simp add: eB)
      have "(2::real) powi (int (B + 2) - 1075) = 2 powi (e - 52) * 2"
        unfolding eq by (rule power_int_add_1) simp
      then show ?thesis by (simp add: True)
    qed
    finally show ?thesis unfolding bits_def B_def .
  next
    case False
    then have m2: "m < 2 ^ 53" using m(2) by simp
    define f where "f = m - 2 ^ 52"
    have mf: "m = 2 ^ 52 + f" "f < 2 ^ 52" using m(1) m2 by (simp_all add: f_def)
    have b: "bits = (B + 1) * 2 ^ 52 + f" by (simp add: bits_def mf(1))
    have d: "bits div 2 ^ 52 = B + 1" and r: "bits mod 2 ^ 52 = f"
      unfolding b using mf(2) by (rule div_mod_field)+
    have fl: "B + 1 < 2047" using lt' b by simp
    have "double_value (of_nat bits) = Some (real (2 ^ 52 + f) * 2 powi (int (B + 1) - 1075))"
      unfolding double_value_def Let_def u s d r using fl by simp
    moreover have "int (B + 1) - 1075 = e - 52" by (simp add: eB)
    ultimately have "double_value (of_nat bits) = Some (real m * 2 powi (e - 52))"
      by (simp only: mf(1)[symmetric])
    then show ?thesis unfolding bits_def B_def .
  qed
qed

lemma truediv_rounds:
  assumes a: "0 < a" and b: "0 < b"
    and lo: "- 1022 \<le> floor_log2 a b" and hi: "floor_log2 a b \<le> 1022"
  shows "\<exists>w x. truediv a b = Inr w \<and> double_value w = Some x
           \<and> \<bar>x - real a / real b\<bar> \<le> real a / real b / 2 ^ 53"
proof -
  define e where "e = floor_log2 a b"
  define q where "q = real a / real b"
  define n d where "n = fst (scaled a b (e - 52))" and "d = snd (scaled a b (e - 52))"
  define y where "y = real n / real d"
  define m where "m = rne_div n d"
  define p where "p = (2::real) powi (e - 52)"
  have ppos: "0 < p" by (simp add: p_def)
  have qb: "2 powi e \<le> q" "q < 2 powi (e + 1)"
    using floor_log2_bounds[OF a b] by (simp_all add: e_def q_def)
  have dpos: "0 < d" and yq: "y = q * 2 powi (- (e - 52))"
    using scaled_real[OF b, of a "e - 52"] by (simp_all add: d_def n_def y_def q_def)
  have inv: "(2::real) powi (- (e - 52)) = 1 / p"
    unfolding p_def by (rule power_int_minus_divide)
  have y: "y = q / p" unfolding yq inv by simp
  have pe: "(2::real) powi e = 2 ^ 52 * p"
  proof -
    have "(2::real) powi e = 2 powi (52 + (e - 52))" by simp
    also have "\<dots> = 2 powi 52 * 2 powi (e - 52)" by (rule power_int_add) simp
    finally show ?thesis by (simp add: p_def)
  qed
  have pe1: "(2::real) powi (e + 1) = 2 ^ 53 * p"
  proof -
    have "(2::real) powi (e + 1) = 2 powi e * 2" by (rule power_int_add_1) simp
    then show ?thesis by (simp add: pe)
  qed
  have qb': "2 ^ 52 * p \<le> q" "q < 2 ^ 53 * p"
    using qb unfolding pe pe1 by simp_all
  have yb: "2 ^ 52 \<le> y" "y < 2 ^ 53"
    using qb' ppos by (simp_all add: y field_simps)
  have err: "\<bar>real m - y\<bar> \<le> 1 / 2"
    using rne_div_error[OF dpos, of n] by (simp add: m_def y_def)
  have ylo: "4503599627370496 \<le> y" and yhi: "y < 9007199254740992"
    using yb by simp_all
  have "4503599627370496 \<le> m" "m \<le> 9007199254740992"
    using err ylo yhi by linarith+
  then have mb: "2 ^ 52 \<le> m" "m \<le> 2 ^ 53" by simp_all
  have bits: "nat (e + 1022) * 2 ^ 52 + m < 0x7FF0000000000000"
  proof -
    have "nat (e + 1022) \<le> 2044" using hi by (simp add: e_def)
    then have "nat (e + 1022) * 2 ^ 52 \<le> 2044 * 2 ^ 52" by (rule mult_le_mono1)
    then show ?thesis using mb(2) by simp
  qed
  have mx: "max (floor_log2 a b) (- 1022) = e" using lo by (simp add: e_def)
  have t: "truediv a b = Inr (of_nat (nat (e + 1022) * 2 ^ 52 + m))"
    using a b bits unfolding truediv_def Let_def mx m_def n_def d_def by simp
  have v: "double_value (of_nat (nat (e + 1022) * 2 ^ 52 + m)) = Some (real m * p)"
    unfolding p_def using mb lo bits by (intro double_value_bits) (simp_all add: e_def)
  have "\<bar>real m * p - q\<bar> = p * \<bar>real m - y\<bar>"
  proof -
    have "real m * p - q = p * (real m - y)" using ppos by (simp add: y field_simps)
    then show ?thesis using ppos by (simp add: abs_mult)
  qed
  also have "\<dots> \<le> p * (1 / 2)" using err ppos by (intro mult_left_mono) simp_all
  also have "\<dots> \<le> q / 2 ^ 53" using qb(1) by (simp add: pe field_simps)
  finally have "\<bar>real m * p - q\<bar> \<le> q / 2 ^ 53" .
  then show ?thesis using t v unfolding q_def by blast
qed

lemma floor_log2_micros:
  assumes "0 < a" "a < 2 ^ 64"
  shows "- 1022 \<le> floor_log2 a 1000000" "floor_log2 a 1000000 \<le> 1022"
proof -
  define e where "e = floor_log2 a 1000000"
  have qb: "2 powi e \<le> real a / 1000000" "real a / 1000000 < 2 powi (e + 1)"
    using floor_log2_bounds[OF assms(1), of 1000000] by (simp_all add: e_def)
  have ra: "1 \<le> real a" "real a < 2 ^ 64"
    using assms by (simp, metis of_nat_less_iff of_nat_numeral of_nat_power)
  have "\<not> 64 \<le> e"
  proof
    assume "64 \<le> e"
    then have "(2::real) powi 64 \<le> 2 powi e" by (intro power_int_increasing) simp_all
    then have "(2::real) ^ 64 \<le> real a / 1000000" using qb(1) by simp
    then show False using ra(2) by simp
  qed
  then show "floor_log2 a 1000000 \<le> 1022" by (simp add: e_def)
  have "\<not> e + 1 \<le> - 20"
  proof
    assume "e + 1 \<le> - 20"
    then have "(2::real) powi (e + 1) \<le> 2 powi (- 20)" by (intro power_int_increasing) simp_all
    then have "real a / 1000000 < 2 powi (- 20)" using qb(2) by simp
    moreover have "(2::real) powi (- 20) = 1 / 2 powi 20" by (rule power_int_minus_divide)
    ultimately have "real a / 1000000 < 1 / 2 ^ 20" by simp
    then show False using ra(1) by (simp add: field_simps)
  qed
  then show "- 1022 \<le> floor_log2 a 1000000" by (simp add: e_def)
qed

lemma truediv_micros:
  assumes "a < 2 ^ 64"
  shows "\<exists>w x. truediv a 1000000 = Inr w \<and> double_value w = Some x
           \<and> \<bar>x - real a / 1000000\<bar> \<le> real a / 1000000 / 2 ^ 53"
proof (cases "a = 0")
  case True
  have "double_value 0 = Some 0" by (simp add: double_value_def)
  then show ?thesis by (simp add: True truediv_def)
next
  case False
  then have "0 < a" by simp
  from truediv_rounds[OF this _ floor_log2_micros[OF this assms], of] show ?thesis by simp
qed

subsection \<open>Rows of doubles and the uncaught shape mismatch\<close>

lemma from_bytes_le_bound: "from_bytes_le bs < 256 ^ length bs"
proof (induction bs)
  case Nil
  show ?case by simp
next
  case (Cons b bs)
  have "unat b < 256" using unsigned_less[of b, where ?'a = nat] by simp
  then have "unat b + 256 * from_bytes_le bs < 256 + 256 * from_bytes_le bs" by simp
  also have "\<dots> = 256 * (from_bytes_le bs + 1)" by simp
  also have "\<dots> \<le> 256 * 256 ^ length bs" using Cons.IH by (intro mult_le_mono2) simp
  finally show ?case by simp
qed

text \<open>Every record the iterator returns has a timestamp below \<open>2^64\<close>.\<close>

lemma next_timestamp_u64:
  assumes "next buf pos = Inr (Some (r, pos'))"
  shows "timestamp r < 2 ^ 64"
proof -
  have r: "r = record_at buf pos" using assms by (simp add: next_char split: if_splits)
  let ?bs = "slice buf (pos + 1 + entryLen_at buf pos + sizeLen_at buf pos)
               (pos + headerLen_at buf pos)"
  have "timestampLen_at buf pos \<le> 8" by (simp add: timestampLen_at_def and7)
  then have "length ?bs \<le> 8" by (simp add: slice_def headerLen_at_def)
  then have "(256::nat) ^ length ?bs \<le> 256 ^ 8" by (intro power_increasing) simp_all
  then have "from_bytes_le ?bs < 256 ^ 8"
    using from_bytes_le_bound[of ?bs] by linarith
  then show ?thesis by (simp add: r record_at_def timestamp_at_def)
qed

lemma double_3_25: "double_value 0x400A000000000000 = Some 3.25"
  by (simp add: double_value_def Let_def)

lemma word_3_25: "(word_of_bytes [0, 0, 0, 0, 0, 0, 0x0A, 0x40] :: 64 word) = 0x400A000000000000"
  by (simp add: word_of_bytes_def)

lemma lit_neq: "lit ''double'' \<noteq> lit ''int64''"
  by (simp add: lit_def)

lemma loop_body_double:
  assumes "entry r \<noteq> 0" "entries st (entry r) = Some d" "start_type d = lit ''double''"
    "length (data r) = 8" "truediv (timestamp r) 1000000 = Inr ts"
  shows "loop_body fmt st r
     = Inr (st\<lparr>output := output st
              @ [(ts, start_name d, VDouble (word_of_bytes (data r)))]\<rparr>)"
  using assms
  by (simp add: loop_body_def isStart_eq isFinish_eq isSetMetadata_eq isControl_def
      extract_value_from_entry_def Let_def raise_or_def getDouble_def lit_neq)

lemma convert_frames:
  assumes "12 \<le> length hdr" "iter_start hdr = length hdr" "\<forall>f\<in>set fs. frame_fits f"
  shows "convert_data_log_to_list fmt (hdr @ concat (map encode_frame fs))
     = raise_or (run_records fmt initial_state (map snd fs)) (\<lambda>st. (output st, error st))"
proof -
  let ?buf = "hdr @ concat (map encode_frame fs)"
  have "slice ?buf 8 12 = slice hdr 8 12" using assms(1) by (intro slice_prefix)
  then have "iter_start ?buf = length hdr" using assms(2) by (simp add: iter_start_def)
  then show ?thesis
    using records_whole[OF assms(3), of hdr]
    by (simp add: convert_data_log_to_list_def convert_loop_records initial_state_def)
qed

lemma sample_frames:
  "start_bytes = encode_frame ((1, 1, 1), start_record)"
  "double_bytes = encode_frame ((1, 1, 3), double_record)"
  "short_bytes = encode_frame ((1, 1, 1), short_record)"
  "frame_fits ((1, 1, 1), start_record)"
  "frame_fits ((1, 1, 3), double_record)"
  "frame_fits ((1, 1, 1), short_record)"
  by (simp_all add: start_bytes_def double_bytes_def short_bytes_def start_record_def
      double_record_def short_record_def encode_record_def descriptor_byte_def
      le_bytes_unfold widths_fit_def)

lemma header_ok: "12 \<le> length log_header" "iter_start log_header = length log_header"
  by (simp_all add: log_header_def iter_start_def slice_def)

lemma sample_log_run:
  "convert_data_log_to_list fmt sample_log
     = raise_or (run_records fmt initial_state [start_record, double_record])
         (\<lambda>st. (output st, error st))"
  using convert_frames[OF header_ok, of "[((1, 1, 1), start_record), ((1, 1, 3), double_record)]" fmt]
    sample_frames(4,5)
  by (simp add: sample_log_def sample_frames(1,2) del: encode_frame.simps frame_fits.simps)

lemma mismatch_log_run:
  "convert_data_log_to_list fmt mismatch_log
     = raise_or (run_records fmt initial_state [start_record, short_record, double_record])
         (\<lambda>st. (output st, error st))"
  using convert_frames[OF header_ok,
      of "[((1, 1, 1), start_record), ((1, 1, 1), short_record), ((1, 1, 3), double_record)]" fmt]
    sample_frames(4-6)
  by (simp add: mismatch_log_def sample_frames(1-3) del: encode_frame.simps frame_fits.simps)

lemma start_record_step:
  "loop_body fmt initial_state start_record = Inr (initial_state\<lparr>entries := [7 \<mapsto> entry7]\<rparr>)"
proof -
  have i: "isStart start_record = Inr True" by (simp add: isStart_eq start_record_def)
  have g: "getStartData start_record = Inr entry7"
    by (simp add: getStartData_def i)
      (simp add: start_record_def readInnerString_def slice_def utf8_decode_def entry7_def lit_def)
  show ?thesis
    by (simp add: loop_body_def i g except_TypeError_def) (simp add: entry7_def initial_state_def)
qed

text \<open>
  C8. A data record (non-zero id, timestamp below \<open>2^64\<close>) whose id has an entry of type
  \<open>double\<close> and whose payload is the 8 little-endian bytes of 3.25 appends one row to
  the output. The row's timestamp is the float \<open>timestamp / 1000000\<close>: the division
  succeeds and its result is a finite double within a relative error of \<open>2^-53\<close> of
  the exact quotient. The row's name is the entry's name and its value is the double of
  bit pattern 0x400A000000000000, which denotes 3.25.
\<close>

theorem double_record_row:
  assumes "entry r \<noteq> 0" "entries st (entry r) = Some d" "start_type d = lit ''double''"
    "data r = [0, 0, 0, 0, 0, 0, 0x0A, 0x40]" "timestamp r < 2 ^ 64"
  shows "\<exists>ts x. truediv (timestamp r) 1000000 = Inr ts
       \<and> loop_body fmt st r
           = Inr (st\<lparr>output := output st @ [(ts, start_name d, VDouble 0x400A000000000000)]\<rparr>)
       \<and> double_value ts = Some x
       \<and> \<bar>x - real (timestamp r) / 1000000\<bar> \<le> real (timestamp r) / 1000000 / 2 ^ 53
       \<and> double_value 0x400A000000000000 = Some 3.25"
proof -
  from truediv_micros[OF assms(5)] obtain ts x where
    t: "truediv (timestamp r) 1000000 = Inr ts" "double_value ts = Some x"
      "\<bar>x - real (timestamp r) / 1000000\<bar> \<le> real (timestamp r) / 1000000 / 2 ^ 53"
    by blast
  have "length (data r) = 8" by (simp add: assms(4))
  then have "loop_body fmt st r
     = Inr (st\<lparr>output := output st @ [(ts, start_name d, VDouble (word_of_bytes (data r)))]\<rparr>)"
    using assms(1-3) t(1) by (intro loop_body_double)
  then have "loop_body fmt st r
     = Inr (st\<lparr>output := output st @ [(ts, start_name d, VDouble 0x400A000000000000)]\<rparr>)"
    by (simp only: assms(4) word_3_25)
  then show ?thesis using t double_3_25 by blast
qed

lemma truediv_examples:
  "truediv 2000000 1000000 = Inr 0x4000000000000000"
  "truediv 1 1000000 = Inr 0x3EB0C6F7A0B5ED8D"
  by (simp_all add: truediv_def floor_log2_def scaled_def rne_div_def bit_length.simps Let_def)

theorem double_record_row_witness:
  "convert_data_log_to_list (\<lambda>x. Inl ValueError) sample_log
     = Inr ([(0x4000000000000000, lit ''x'', VDouble 0x400A000000000000)], None)
   \<and> double_value 0x4000000000000000 = Some 2
   \<and> loop_body (\<lambda>x. Inl ValueError) (initial_state\<lparr>entries := [7 \<mapsto> entry7]\<rparr>)
        \<lparr>entry = 7, timestamp = 1, data = [0, 0, 0, 0, 0, 0, 0x0A, 0x40]\<rparr>
       = Inr (initial_state
               \<lparr>entries := [7 \<mapsto> entry7],
                output := [(0x3EB0C6F7A0B5ED8D, lit ''x'', VDouble 0x400A000000000000)]\<rparr>)
   \<and> double_value 0x400A000000000000 = Some 3.25"
proof -
  define f :: time_format where "f = (\<lambda>x. Inl ValueError)"
  define st1 where "st1 = initial_state\<lparr>entries := [7 \<mapsto> entry7]\<rparr>"
  define r1 where
    "r1 = \<lparr>entry = 7, timestamp = 1, data = [0, 0, 0, 0, 0, 0, 0x0A, 0x40 :: byte]\<rparr>"
  have h: "entry double_record \<noteq> 0" "entries st1 (entry double_record) = Some entry7"
    "start_type entry7 = lit ''double''"
    "data double_record = [0, 0, 0, 0, 0, 0, 0x0A, 0x40]" "timestamp double_record < 2 ^ 64"
    by (simp_all add: double_record_def st1_def entry7_def)
  have h1: "entry r1 \<noteq> 0" "entries st1 (entry r1) = Some entry7"
    "start_type entry7 = lit ''double''"
    "data r1 = [0, 0, 0, 0, 0, 0, 0x0A, 0x40]" "timestamp r1 < 2 ^ 64"
    by (simp_all add: r1_def st1_def entry7_def)
  have ts: "timestamp double_record = 2000000" "timestamp r1 = 1"
    by (simp_all add: double_record_def r1_def)
  have nm: "start_name entry7 = lit ''x''" by (simp add: entry7_def)
  from double_record_row[OF h, of f] obtain w x where
    a: "truediv (timestamp double_record) 1000000 = Inr w"
      "loop_body f st1 double_record
         = Inr (st1\<lparr>output := output st1 @ [(w, start_name entry7, VDouble 0x400A000000000000)]\<rparr>)"
      "double_value w = Some x"
      "\<bar>x - real (timestamp double_record) / 1000000\<bar>
         \<le> real (timestamp double_record) / 1000000 / 2 ^ 53"
      "double_value 0x400A000000000000 = Some 3.25"
    by blast
  have w: "w = 0x4000000000000000" using a(1) unfolding ts truediv_examples by simp
  have "run_records f initial_state [start_record, double_record]
      = Inr (st1\<lparr>output := output st1 @ [(w, lit ''x'', VDouble 0x400A000000000000)]\<rparr>)"
    using a(2) by (simp add: start_record_step st1_def[symmetric] nm)
  then have c1: "convert_data_log_to_list f sample_log
     = Inr ([(0x4000000000000000, lit ''x'', VDouble 0x400A000000000000)], None)"
    by (simp add: sample_log_run raise_or_def st1_def initial_state_def w)
  have c2: "double_value 0x4000000000000000 = Some 2"
    by (simp add: double_value_def Let_def)
  from double_record_row[OF h1, of f] obtain w1 where
    b: "truediv (timestamp r1) 1000000 = Inr w1"
      "loop_body f st1 r1
         = Inr (st1\<lparr>output := output st1 @ [(w1, start_name entry7, VDouble 0x400A000000000000)]\<rparr>)"
    by blast
  have w1: "w1 = 0x3EB0C6F7A0B5ED8D" using b(1) unfolding ts truediv_examples by simp
  have c3: "loop_body f st1 r1
      = Inr (st1\<lparr>output := [(0x3EB0C6F7A0B5ED8D, lit ''x'', VDouble 0x400A000000000000)]\<rparr>)"
    using b(2) by (simp add: w1 nm st1_def initial_state_def)
  show ?thesis
    using c1 c2 c3 a(5) unfolding f_def st1_def r1_def by simp
qed

text \<open>
  C1, on the code. \<open>mismatch_log\<close> holds three records: the start record of entry 7
  (type \<open>double\<close>), a data record of entry 7 with a 3-byte payload, and a well-formed
  data record of entry 7. The TypeError that \<open>getDouble\<close> raises on the 3-byte payload
  is not caught in the data branch of the loop: \<open>convert_data_log_to_list\<close> raises it
  and returns neither rows nor an error flag, and the third record is never processed.
\<close>

theorem shape_mismatch_aborts:
  "records mismatch_log (iter_start mismatch_log)
      = Inr [start_record, short_record, double_record]
   \<and> convert_data_log_to_list fmt mismatch_log = Inl TypeError"
proof -
  let ?fs = "[((1, 1, 1), start_record), ((1, 1, 1), short_record), ((1, 1, 3), double_record)]
               :: frame list"
  have m: "mismatch_log = log_header @ concat (map encode_frame ?fs)"
    by (simp add: mismatch_log_def sample_frames(1-3) del: encode_frame.simps)
  have "slice mismatch_log 8 12 = slice log_header 8 12"
    unfolding m using header_ok(1) by (intro slice_prefix)
  then have i: "iter_start mismatch_log = length log_header"
    using header_ok(2) by (simp add: iter_start_def)
  have ff: "\<forall>f\<in>set ?fs. frame_fits f"
    using sample_frames(4-6) by (simp del: frame_fits.simps)
  have "records mismatch_log (iter_start mismatch_log) = Inr (map snd ?fs)"
    by (subst i, subst m) (rule records_whole[OF ff])
  then have r: "records mismatch_log (iter_start mismatch_log)
      = Inr [start_record, short_record, double_record]"
    by simp
  have "(5::nat) < 2 ^ 64" by simp
  from truediv_micros[OF this] obtain w where w: "truediv 5 1000000 = Inr w" by blast
  have s: "loop_body fmt (initial_state\<lparr>entries := [7 \<mapsto> entry7]\<rparr>) short_record = Inl TypeError"
    by (simp add: loop_body_def isStart_eq isFinish_eq isSetMetadata_eq isControl_def
        extract_value_from_entry_def w Let_def raise_or_def getDouble_def lit_neq
        short_record_def initial_state_def entry7_def)
  have "run_records fmt initial_state [start_record, short_record, double_record] = Inl TypeError"
    by (simp add: start_record_step s)
  then have "convert_data_log_to_list fmt mismatch_log = Inl TypeError"
    by (simp add: mismatch_log_run raise_or_def)
  with r show ?thesis by simp
qed

end
